theory Spec2Isabelle
  imports Complex_Main
begin

text \<open>
  The program of \<^verbatim>\<open>main.cpp\<close> asks for a value until the input has the right type
  (\<^verbatim>\<open>read_int\<close>, \<^verbatim>\<open>read_float\<close>, \<^verbatim>\<open>read_element\<close>) and, in three of its demonstrations,
  until the value also lies within bounds. Its functions are embedded below as functions
  on an explicit program state. They call the stream library of C++, whose operations are
  modelled first, after the C++11 standard (clauses on \<^verbatim>\<open>basic_istream\<close> and
  \<^verbatim>\<open>num_get\<close>); where the standard leaves the extent of a numeric field to the
  implementation, the decimal fields of the GNU library are taken.
\<close>

section \<open>Characters and decimal digits\<close>

text \<open>
  The program reads from \<^verbatim>\<open>cin\<close> in the classic "C" locale. The enter key is the
  line feed; \<^verbatim>\<open>isspace\<close> is true of the six ASCII white-space characters.
\<close>

definition newline :: char where
  "newline = CHR 0x0A"

definition isspace :: "char \<Rightarrow> bool" where
  "isspace c = (c = CHR '' '' \<or> c = CHR 0x09 \<or> c = CHR 0x0A \<or> c = CHR 0x0B
                \<or> c = CHR 0x0C \<or> c = CHR 0x0D)"

definition isdigit :: "char \<Rightarrow> bool" where
  "isdigit c = (c \<in> set ''0123456789'')"

definition digit_val :: "char \<Rightarrow> nat" where
  "digit_val c = (of_char c :: nat) - 48"

definition decimal :: "string \<Rightarrow> nat" where
  "decimal ds = foldl (\<lambda>a c. 10 * a + digit_val c) 0 ds"

section \<open>The input stream\<close>

text \<open>
  \<^verbatim>\<open>cin\<close> is an object with state: the characters that have been typed and not yet
  consumed (\<open>buf\<close>; the end of the list is the end of the input), the two error flags
  the program can meet (\<open>failbit\<close>, \<open>eofbit\<close>; no operation of this program sets
  \<^verbatim>\<open>badbit\<close>, which stands for a device error), and the format flag that
  \<^verbatim>\<open>cin >> boolalpha\<close> sets.
\<close>

record istream =
  buf :: string
  failbit :: bool
  eofbit :: bool
  boolalpha :: bool

text \<open>\<^verbatim>\<open>cin.good()\<close>: no error flag is set.\<close>

definition good :: "istream \<Rightarrow> bool" where
  "good s = (\<not> failbit s \<and> \<not> eofbit s)"

text \<open>\<^verbatim>\<open>cin.clear()\<close>: every error flag is reset.\<close>

definition clear :: "istream \<Rightarrow> istream" where
  "clear s = s\<lparr>failbit := False, eofbit := False\<rparr>"

text \<open>
  \<^verbatim>\<open>cin.ignore(n, delim)\<close> extracts and drops characters until \<open>n\<close> of them are gone,
  or the input ends (which sets \<open>eofbit\<close>), or the next character is \<open>delim\<close>, which
  is dropped as well. \<open>discard\<close> gives the characters left and whether the end was hit.
  On a stream that is not good the call only sets \<open>failbit\<close>.
\<close>

fun discard :: "nat \<Rightarrow> char \<Rightarrow> string \<Rightarrow> string \<times> bool" where
  "discard n d [] = ([], n \<noteq> 0)"
| "discard n d (c # cs) =
     (if n = 0 then (c # cs, False)
      else if c = d then (cs, False)
      else discard (n - 1) d cs)"

definition ignore :: "nat \<Rightarrow> char \<Rightarrow> istream \<Rightarrow> istream" where
  "ignore n d s =
     (if \<not> good s then s\<lparr>failbit := True\<rparr>
      else s\<lparr>buf := fst (discard n d (buf s)), eofbit := snd (discard n d (buf s))\<rparr>)"

section \<open>Formatted extraction\<close>

text \<open>
  What the conversion of one input field gives: the value to store in the target
  variable (since C++11 a failed conversion stores a value too), whether the conversion
  succeeded, whether the scan ran into the end of the input while looking for a further
  character, and the characters left unread.
\<close>

record 'a parsed =
  stored :: 'a
  ok :: bool
  hit_eof :: bool
  rest :: string

text \<open>A conversion reads the \<open>boolalpha\<close> flag of the stream and the pending characters.\<close>

type_synonym 'a num_get = "bool \<Rightarrow> string \<Rightarrow> 'a parsed"

text \<open>
  \<^verbatim>\<open>cin >> userval\<close>. The sentry comes first: on a stream that is not good it sets
  \<open>failbit\<close> and leaves \<open>userval\<close> as it was; otherwise it skips white space, and when
  the input ends there it sets \<open>failbit\<close> and \<open>eofbit\<close>, again without touching
  \<open>userval\<close>. Then the conversion runs on the first character that is not white space.
  The first argument after the conversion is the old content of the target variable.
\<close>

definition formatted_input :: "'a num_get \<Rightarrow> 'a \<Rightarrow> istream \<Rightarrow> 'a \<times> istream" where
  "formatted_input get u s =
     (if \<not> good s then (u, s\<lparr>failbit := True\<rparr>)
      else if dropWhile isspace (buf s) = []
      then (u, s\<lparr>buf := [], failbit := True, eofbit := True\<rparr>)
      else (stored (get (boolalpha s) (dropWhile isspace (buf s))),
            s\<lparr>buf := rest (get (boolalpha s) (dropWhile isspace (buf s))),
              failbit := \<not> ok (get (boolalpha s) (dropWhile isspace (buf s))),
              eofbit := hit_eof (get (boolalpha s) (dropWhile isspace (buf s)))\<rparr>))"

subsection \<open>Conversion to \<^verbatim>\<open>int\<close>\<close>

text \<open>
  An \<^verbatim>\<open>int\<close> has 32 bits. The field is an optional sign and then decimal digits, as many
  as there are. No digit: the conversion fails and stores 0. A value that an \<^verbatim>\<open>int\<close>
  cannot hold: the conversion fails and stores the nearest bound.
\<close>

definition INT_MAX :: int where
  "INT_MAX = 2147483647"

definition INT_MIN :: int where
  "INT_MIN = - 2147483648"

text \<open>The optional sign: whether it is a minus, and the characters after it.\<close>

fun get_sign :: "string \<Rightarrow> bool \<times> string" where
  "get_sign [] = (False, [])"
| "get_sign (c # cs) =
     (if c = CHR ''-'' then (True, cs)
      else if c = CHR ''+'' then (False, cs)
      else (False, c # cs))"

definition signed :: "bool \<Rightarrow> nat \<Rightarrow> int" where
  "signed neg n = (if neg then - int n else int n)"

definition num_get_int :: "int num_get" where
  "num_get_int alpha s =
     (let neg = fst (get_sign s);
          ds = takeWhile isdigit (snd (get_sign s));
          r = dropWhile isdigit (snd (get_sign s));
          v = signed neg (decimal ds)
      in if ds = [] then \<lparr>stored = 0, ok = False, hit_eof = (r = []), rest = r\<rparr>
         else if INT_MAX < v then \<lparr>stored = INT_MAX, ok = False, hit_eof = (r = []), rest = r\<rparr>
         else if v < INT_MIN then \<lparr>stored = INT_MIN, ok = False, hit_eof = (r = []), rest = r\<rparr>
         else \<lparr>stored = v, ok = True, hit_eof = (r = []), rest = r\<rparr>)"

subsection \<open>Conversion to \<^verbatim>\<open>bool\<close>\<close>

text \<open>
  With \<open>boolalpha\<close> set the field is matched against the names \<^verbatim>\<open>true\<close> and
  \<^verbatim>\<open>false\<close>, character by character; digits are not looked at. Without the flag the
  field is read as an integer, 0 is false, 1 is true, and anything else fails (storing
  true). A failed match stores false.
\<close>

fun match_name :: "string \<Rightarrow> string \<Rightarrow> bool \<times> bool \<times> string" where
  "match_name [] s = (True, False, s)"
| "match_name (n # ns) [] = (False, True, [])"
| "match_name (n # ns) (c # cs) =
     (if n = c then match_name ns cs else (False, False, c # cs))"

definition get_name :: "bool \<Rightarrow> string \<Rightarrow> string \<Rightarrow> bool parsed" where
  "get_name v name s =
     (case match_name name s of
        (m, e, r) \<Rightarrow> \<lparr>stored = (m \<and> v), ok = m, hit_eof = e, rest = r\<rparr>)"

definition num_get_bool :: "bool num_get" where
  "num_get_bool alpha s =
     (if alpha then
        (case s of
           [] \<Rightarrow> \<lparr>stored = False, ok = False, hit_eof = True, rest = []\<rparr>
         | c # cs \<Rightarrow>
             if c = CHR ''t'' then get_name True ''true'' s
             else if c = CHR ''f'' then get_name False ''false'' s
             else \<lparr>stored = False, ok = False, hit_eof = False, rest = s\<rparr>)
      else
        (let p = num_get_int alpha s
         in if \<not> ok p then \<lparr>stored = (stored p \<noteq> 0), ok = False, hit_eof = hit_eof p, rest = rest p\<rparr>
            else if stored p = 0 then \<lparr>stored = False, ok = True, hit_eof = hit_eof p, rest = rest p\<rparr>
            else if stored p = 1 then \<lparr>stored = True, ok = True, hit_eof = hit_eof p, rest = rest p\<rparr>
            else \<lparr>stored = True, ok = False, hit_eof = hit_eof p, rest = rest p\<rparr>))"

subsection \<open>Conversion to \<^verbatim>\<open>float\<close>\<close>

text \<open>
  A \<^verbatim>\<open>float\<close> is an IEEE 754 binary32 number and a \<^verbatim>\<open>double\<close> a binary64 number. Every
  finite one is a rational \<open>m * 2 ^ q\<close>, and the model keeps that rational: the
  conversion from \<^verbatim>\<open>float\<close> to \<^verbatim>\<open>double\<close> is exact, and so is a comparison.
  \<open>round_binary p emin num den\<close> is the number with \<open>p\<close> significant bits and least
  normal exponent \<open>emin\<close> nearest to \<open>num / den\<close>, ties to the even significand.
\<close>

fun bits :: "nat \<Rightarrow> nat" where
  "bits n = (if n = 0 then 0 else Suc (bits (n div 2)))"

declare bits.simps [simp del]

definition pow2 :: "int \<Rightarrow> rat" where
  "pow2 k = (if 0 \<le> k then 2 ^ nat k else 1 / 2 ^ nat (- k))"

definition ilog2 :: "nat \<Rightarrow> nat \<Rightarrow> int" where
  "ilog2 num den =
     (let d = int (bits num) - int (bits den)
      in if pow2 d \<le> of_nat num / of_nat den then d else d - 1)"

definition round_half_even :: "nat \<Rightarrow> nat \<Rightarrow> nat" where
  "round_half_even n d =
     (let q = n div d; r = n mod d
      in if 2 * r < d then q else if d < 2 * r then q + 1
         else if even q then q else q + 1)"

definition round_binary :: "nat \<Rightarrow> int \<Rightarrow> nat \<Rightarrow> nat \<Rightarrow> rat" where
  "round_binary p emin num den =
     (if num = 0 then 0
      else let q = max (ilog2 num den) emin - (int p - 1);
               m = (if 0 \<le> q then round_half_even num (den * 2 ^ nat q)
                    else round_half_even (num * 2 ^ nat (- q)) den)
           in of_nat m * pow2 q)"

definition FLT_MAX :: rat where
  "FLT_MAX = (2 ^ 24 - 1) * 2 ^ 104"

text \<open>A decimal literal of the program text, such as \<^verbatim>\<open>42.8\<close>, is a \<^verbatim>\<open>double\<close>.\<close>

definition double_literal :: "nat \<Rightarrow> nat \<Rightarrow> rat" where
  "double_literal num den = round_binary 53 (- 1022) num den"

text \<open>
  The field of a \<^verbatim>\<open>float\<close>: an optional sign, digits, optionally a point and digits,
  and, once a digit has been read, optionally \<^verbatim>\<open>e\<close> or \<^verbatim>\<open>E\<close>, an optional sign and
  digits. \<open>scan_float\<close> takes the field off the pending characters (without a point
  the characters after the first digits begin with no digit, so that \<open>frac_digits\<close> is
  empty). The conversion
  fails, storing 0, when the mantissa has no digit or an exponent mark has none after it;
  it fails, storing the largest \<^verbatim>\<open>float\<close>, when the value is too large. Names such as
  \<^verbatim>\<open>inf\<close> and \<^verbatim>\<open>nan\<close> and hexadecimal fields are not read.
\<close>

record float_field =
  negative :: bool
  int_digits :: string
  frac_digits :: string
  has_exp :: bool
  exp_negative :: bool
  exp_digits :: string
  unread :: string

text \<open>One optional character out of \<open>cs\<close>: whether it is there, and what follows.\<close>

fun get_char :: "string \<Rightarrow> string \<Rightarrow> bool \<times> string" where
  "get_char cs [] = (False, [])"
| "get_char cs (c # s) = (if c \<in> set cs then (True, s) else (False, c # s))"

definition scan_float :: "string \<Rightarrow> float_field" where
  "scan_float s =
     (let s1 = snd (get_sign s);
          i = takeWhile isdigit s1;
          s2 = snd (get_char ''.'' (dropWhile isdigit s1));
          f = takeWhile isdigit s2;
          s3 = dropWhile isdigit s2;
          sci = ((i \<noteq> [] \<or> f \<noteq> []) \<and> fst (get_char ''eE'' s3));
          s4 = snd (get_char ''eE'' s3)
      in \<lparr>negative = fst (get_sign s), int_digits = i, frac_digits = f, has_exp = sci,
          exp_negative = (sci \<and> fst (get_sign s4)),
          exp_digits = (if sci then takeWhile isdigit (snd (get_sign s4)) else []),
          unread = (if sci then dropWhile isdigit (snd (get_sign s4)) else s3)\<rparr>)"

definition num_get_float :: "rat num_get" where
  "num_get_float alpha s =
     (let fl = scan_float s;
          k = signed (exp_negative fl) (decimal (exp_digits fl)) - int (length (frac_digits fl));
          v = round_binary 24 (- 126)
                (decimal (int_digits fl @ frac_digits fl) * 10 ^ nat k) (10 ^ nat (- k))
      in if (int_digits fl = [] \<and> frac_digits fl = []) \<or> (has_exp fl \<and> exp_digits fl = [])
         then \<lparr>stored = 0, ok = False, hit_eof = (unread fl = []), rest = unread fl\<rparr>
         else if FLT_MAX < v
         then \<lparr>stored = (if negative fl then - FLT_MAX else FLT_MAX), ok = False,
               hit_eof = (unread fl = []), rest = unread fl\<rparr>
         else \<lparr>stored = (if negative fl then - v else v), ok = True,
               hit_eof = (unread fl = []), rest = unread fl\<rparr>)"

section \<open>The program state\<close>

text \<open>
  The program works on \<^verbatim>\<open>cin\<close> and \<^verbatim>\<open>cout\<close> only. The state is the input stream
  and the record of what the program has done to the two streams, oldest first: each
  formatted extraction (with whether its conversion succeeded), each call of
  \<^verbatim>\<open>cin.clear()\<close> and \<^verbatim>\<open>cin.ignore\<close>, and each insertion into \<^verbatim>\<open>cout\<close>. The string
  literals that one statement inserts one after the other are recorded as one text.
\<close>

datatype event =
    Extracted bool
  | Cleared
  | Ignored nat char
  | Cout string
  | CoutInt int
  | CoutFloat rat
  | CoutBool bool
  | Endl

record world =
  cin :: istream
  trace :: "event list"

definition cin_extract :: "'a num_get \<Rightarrow> 'a \<Rightarrow> world \<Rightarrow> 'a \<times> world" where
  "cin_extract get u w =
     (fst (formatted_input get u (cin w)),
      w\<lparr>cin := snd (formatted_input get u (cin w)),
        trace := trace w @ [Extracted (\<not> failbit (snd (formatted_input get u (cin w))))]\<rparr>)"

definition cin_clear :: "world \<Rightarrow> world" where
  "cin_clear w = w\<lparr>cin := clear (cin w), trace := trace w @ [Cleared]\<rparr>"

definition cin_ignore :: "nat \<Rightarrow> char \<Rightarrow> world \<Rightarrow> world" where
  "cin_ignore n d w = w\<lparr>cin := ignore n d (cin w), trace := trace w @ [Ignored n d]\<rparr>"

definition cin_boolalpha :: "world \<Rightarrow> world" where
  "cin_boolalpha w = w\<lparr>cin := (cin w)\<lparr>boolalpha := True\<rparr>\<rparr>"

definition cout :: "event list \<Rightarrow> world \<Rightarrow> world" where
  "cout es w = w\<lparr>trace := trace w @ es\<rparr>"

section \<open>The three readers\<close>

text \<open>
  \<^verbatim>\<open>read_int\<close>, \<^verbatim>\<open>read_float\<close> and \<^verbatim>\<open>read_element\<close> are the same text three times, up to
  the type of \<^verbatim>\<open>userval\<close>, the message \<open>msg\<close>, and \<^verbatim>\<open>boolalpha\<close> in the extraction
  statement of \<^verbatim>\<open>read_element\<close>:
  \<^verbatim>\<open>
    cin >> userval;                  // read_element: cin >> boolalpha >> userval;
    while (! cin.good()) {
        cin.clear();
        cin.ignore(80, '\n');
        cout << msg;
        cin >> userval;              // read_element: cin >> boolalpha >> userval;
    }
    return userval;
  \<close>
  \<open>extraction alpha get\<close> is the extraction statement (\<open>alpha\<close>: with \<^verbatim>\<open>boolalpha\<close>),
  \<open>retry_body\<close> the body of the loop and \<open>retry\<close> the loop, on the pair of \<^verbatim>\<open>userval\<close>
  and the program state. The loop may run forever: \<open>retry\<close> is \<open>None\<close> then.
  \<^verbatim>\<open>userval\<close> is declared without a value; what it holds at first is the argument \<open>u\<close>
  of the readers.
\<close>

definition extraction :: "bool \<Rightarrow> 'a num_get \<Rightarrow> 'a \<Rightarrow> world \<Rightarrow> 'a \<times> world" where
  "extraction alpha get u w = cin_extract get u (if alpha then cin_boolalpha w else w)"

definition retry_body :: "bool \<Rightarrow> 'a num_get \<Rightarrow> string \<Rightarrow> 'a \<times> world \<Rightarrow> 'a \<times> world" where
  "retry_body alpha get msg uw =
     extraction alpha get (fst uw)
       (cout [Cout msg] (cin_ignore 80 newline (cin_clear (snd uw))))"

partial_function (option) retry ::
  "bool \<Rightarrow> 'a num_get \<Rightarrow> string \<Rightarrow> 'a \<times> world \<Rightarrow> ('a \<times> world) option" where
  "retry alpha get msg uw =
     (if \<not> good (cin (snd uw)) then retry alpha get msg (retry_body alpha get msg uw)
      else Some uw)"

definition read_loop ::
  "bool \<Rightarrow> 'a num_get \<Rightarrow> string \<Rightarrow> 'a \<Rightarrow> world \<Rightarrow> ('a \<times> world) option" where
  "read_loop alpha get msg u w = retry alpha get msg (extraction alpha get u w)"

definition int_msg :: string where
  "int_msg = ''Invalid data type, should be a whole number, try again: ''"

definition read_int :: "int \<Rightarrow> world \<Rightarrow> (int \<times> world) option" where
  "read_int u w = read_loop False num_get_int int_msg u w"

text \<open>
  The element type is chosen at compile time by a block of declarations: the type, its
  name for messages, and the two bounds. Here the block is a value: the conversion of
  the chosen type, \<^verbatim>\<open>ELEMENT_NAME\<close>, \<^verbatim>\<open>ELEMENT_LOW\<close>, \<^verbatim>\<open>ELEMENT_HIGH\<close>, and how
  \<^verbatim>\<open>cout\<close> takes a value of the type.
\<close>

record 'e element_block =
  element_get :: "'e num_get"
  ELEMENT_NAME :: string
  ELEMENT_LOW :: 'e
  ELEMENT_HIGH :: 'e
  element_out :: "'e \<Rightarrow> event"

text \<open>The block that is not commented out, and the one for \<^verbatim>\<open>bool\<close>.\<close>

definition int_element :: "int element_block" where
  "int_element = \<lparr>element_get = num_get_int, ELEMENT_NAME = ''whole number'',
     ELEMENT_LOW = 17, ELEMENT_HIGH = 52, element_out = CoutInt\<rparr>"

definition bool_element :: "bool element_block" where
  "bool_element = \<lparr>element_get = num_get_bool, ELEMENT_NAME = ''boolean'',
     ELEMENT_LOW = False, ELEMENT_HIGH = True, element_out = CoutBool\<rparr>"

definition element_msg :: "'e element_block \<Rightarrow> string" where
  "element_msg E = ''Invalid data type, should be an element ('' @ ELEMENT_NAME E
                   @ ''), try again: ''"

definition read_element :: "'e element_block \<Rightarrow> 'e \<Rightarrow> world \<Rightarrow> ('e \<times> world) option" where
  "read_element E u w = read_loop True (element_get E) (element_msg E) u w"

definition float_msg :: string where
  "float_msg = ''Invalid data type, should be a fractional number, try again: ''"

definition read_float :: "rat \<Rightarrow> world \<Rightarrow> (rat \<times> world) option" where
  "read_float u w = read_loop False num_get_float float_msg u w"

section \<open>Type checking and range checking together\<close>

text \<open>
  The three range-checking functions share their control flow, with reader \<open>rd\<close>,
  bounds \<open>lo\<close> and \<open>hi\<close> and the insertions \<open>msg\<close> of the complaint:
  \<^verbatim>\<open>
    userval = rd();
    while ((userval < lo) || (userval > hi)) {
        cout << msg;
        userval = rd();
    }
  \<close>
  \<open>range_retry\<close> is the loop, on the pair of \<^verbatim>\<open>userval\<close> and the program state, and
  \<open>read_in_range\<close> the two statements; its value is the last content of \<^verbatim>\<open>userval\<close>.
  A call of the reader that never returns makes the whole \<open>None\<close>.
\<close>

partial_function (option) range_retry ::
  "'a::linorder \<Rightarrow> 'a \<Rightarrow> event list \<Rightarrow> (world \<Rightarrow> ('a \<times> world) option)
     \<Rightarrow> 'a \<times> world \<Rightarrow> ('a \<times> world) option" where
  "range_retry lo hi msg rd vw =
     (if fst vw < lo \<or> fst vw > hi
      then (case rd (cout msg (snd vw)) of
              None \<Rightarrow> None
            | Some vw' \<Rightarrow> range_retry lo hi msg rd vw')
      else Some vw)"

definition read_in_range ::
  "'a::linorder \<Rightarrow> 'a \<Rightarrow> event list \<Rightarrow> (world \<Rightarrow> ('a \<times> world) option)
     \<Rightarrow> world \<Rightarrow> ('a \<times> world) option" where
  "read_in_range lo hi msg rd w =
     (case rd w of None \<Rightarrow> None | Some vw \<Rightarrow> range_retry lo hi msg rd vw)"

definition int_range_msg :: "event list" where
  "int_range_msg = [Cout ''Invalid range, should be between 6 and 37, try again: '']"

definition read_int_in_range :: "int \<Rightarrow> world \<Rightarrow> (int \<times> world) option" where
  "read_int_in_range u w = read_in_range 6 37 int_range_msg (read_int u) w"

definition demo_int_type_and_range_checking :: "int \<Rightarrow> world \<Rightarrow> world option" where
  "demo_int_type_and_range_checking u w =
     (case read_int_in_range u (cout [Cout ''Enter a whole number between 6 and 37: ''] w) of
        None \<Rightarrow> None
      | Some vw \<Rightarrow> Some (cout [Cout ''You entered '', CoutInt (fst vw), Endl, Endl] (snd vw)))"

definition float_range_msg :: "event list" where
  "float_range_msg = [Cout ''Invalid range, should be between 5.5 and 42.8, try again: '']"

definition read_float_in_range :: "rat \<Rightarrow> world \<Rightarrow> (rat \<times> world) option" where
  "read_float_in_range u w =
     read_in_range (double_literal 55 10) (double_literal 428 10) float_range_msg (read_float u) w"

definition demo_float_type_and_range_checking :: "rat \<Rightarrow> world \<Rightarrow> world option" where
  "demo_float_type_and_range_checking u w =
     (case read_float_in_range u
             (cout [Cout ''Enter a factional number between 5.5 and 42.8: ''] w) of
        None \<Rightarrow> None
      | Some vw \<Rightarrow> Some (cout [Cout ''You entered '', CoutFloat (fst vw), Endl, Endl] (snd vw)))"

definition element_range_msg :: "'e element_block \<Rightarrow> event list" where
  "element_range_msg E =
     [Cout ''Invalid range, should be between '', element_out E (ELEMENT_LOW E),
      Cout '' and '', element_out E (ELEMENT_HIGH E), Cout '', try again: '']"

definition read_element_in_range ::
  "('e::linorder) element_block \<Rightarrow> 'e \<Rightarrow> world \<Rightarrow> ('e \<times> world) option" where
  "read_element_in_range E u w =
     read_in_range (ELEMENT_LOW E) (ELEMENT_HIGH E) (element_range_msg E) (read_element E u) w"

definition demo_element_type_and_range_checking ::
  "('e::linorder) element_block \<Rightarrow> 'e \<Rightarrow> world \<Rightarrow> world option" where
  "demo_element_type_and_range_checking E u w =
     (case read_element_in_range E u
             (cout [Cout (''Enter an element ('' @ ELEMENT_NAME E @ '') between ''),
                    element_out E (ELEMENT_LOW E), Cout '' and '',
                    element_out E (ELEMENT_HIGH E), Cout '': ''] w) of
        None \<Rightarrow> None
      | Some vw \<Rightarrow>
          Some (cout [Cout ''You entered '', element_out E (fst vw), Endl, Endl] (snd vw)))"

text \<open>
  The input of a session at the terminal: each entry is typed and ended with the enter
  key. \<open>start s\<close> is the program state before anything has been read or written, with
  \<open>s\<close> as all the input there will be.
\<close>

definition entries :: "string list \<Rightarrow> string" where
  "entries ts = concat (map (\<lambda>t. t @ [newline]) ts)"

definition start :: "string \<Rightarrow> world" where
  "start s = \<lparr>cin = \<lparr>buf = s, failbit = False, eofbit = False, boolalpha = False\<rparr>,
              trace = []\<rparr>"

section \<open>Entries, prompts and the states the range loop examines\<close>

text \<open>
  An entry is what is typed before one press of the enter key. \<open>accepted get a t v\<close>:
  the entry holds something besides white space, and the conversion \<open>get\<close>, run under
  flag \<open>a\<close> on the entry from its first character that is not white space, succeeds
  with value \<open>v\<close>. \<open>rejected get a t\<close>: it fails there.
\<close>

definition accepted :: "'a num_get \<Rightarrow> bool \<Rightarrow> string \<Rightarrow> 'a \<Rightarrow> bool" where
  "accepted get a t v =
     (newline \<notin> set t \<and> dropWhile isspace t \<noteq> []
      \<and> ok (get a (dropWhile isspace t)) \<and> stored (get a (dropWhile isspace t)) = v)"

definition rejected :: "'a num_get \<Rightarrow> bool \<Rightarrow> string \<Rightarrow> bool" where
  "rejected get a t =
     (newline \<notin> set t \<and> dropWhile isspace t \<noteq> [] \<and> \<not> ok (get a (dropWhile isspace t)))"

text \<open>
  A conversion is local to the entry when the enter key stops it: what follows the
  entry changes neither the value nor the success, and is left unread together with
  the unread end of the entry.
\<close>

definition entry_local :: "'a num_get \<Rightarrow> bool" where
  "entry_local get =
     (\<forall>a b nxt.
        get a (b @ newline # nxt)
          = (get a b)\<lparr>hit_eof := False, rest := rest (get a b) @ newline # nxt\<rparr>
        \<and> (\<exists>pre. b = pre @ rest (get a b)))"

text \<open>How often the message \<open>msg\<close> has been written.\<close>

definition prompts :: "string \<Rightarrow> world \<Rightarrow> nat" where
  "prompts msg w = length (filter (\<lambda>e. e = Cout msg) (trace w))"

text \<open>What one failed attempt adds to the record before the next attempt.\<close>

definition retry_events :: "string \<Rightarrow> event list" where
  "retry_events msg = [Extracted False, Cleared, Ignored 80 newline, Cout msg]"

text \<open>
  \<open>examines lo hi msg rd w vw\<close>: in the run of \<open>read_in_range lo hi msg rd\<close> from
  state \<open>w\<close>, the loop condition is evaluated on the pair \<open>vw\<close> of \<^verbatim>\<open>userval\<close> and
  state. That is so after the first call of the reader, and after each later call, which
  happens when the condition held.
\<close>

inductive examines ::
  "'a::linorder \<Rightarrow> 'a \<Rightarrow> event list \<Rightarrow> (world \<Rightarrow> ('a \<times> world) option)
     \<Rightarrow> world \<Rightarrow> 'a \<times> world \<Rightarrow> bool"
  for lo hi msg rd w
  where
    first: "rd w = Some vw \<Longrightarrow> examines lo hi msg rd w vw"
  | again: "examines lo hi msg rd w vw \<Longrightarrow> fst vw < lo \<or> fst vw > hi \<Longrightarrow>
            rd (cout msg (snd vw)) = Some vw' \<Longrightarrow> examines lo hi msg rd w vw'"

section \<open>The stream operations\<close>

lemma good_clear: "good (clear s)"
  by (simp add: good_def clear_def)

lemma formatted_input_good:
  assumes "good (snd (formatted_input get u s))"
  shows "good s" and "dropWhile isspace (buf s) \<noteq> []"
    and "ok (get (boolalpha s) (dropWhile isspace (buf s)))"
    and "fst (formatted_input get u s) = stored (get (boolalpha s) (dropWhile isspace (buf s)))"
    and "buf (snd (formatted_input get u s)) = rest (get (boolalpha s) (dropWhile isspace (buf s)))"
  using assms by (auto simp: formatted_input_def good_def split: if_splits)

lemma trace_extraction:
  "trace (snd (extraction alpha get u w))
     = trace w @ [Extracted (\<not> failbit (cin (snd (extraction alpha get u w))))]"
  by (simp add: extraction_def cin_extract_def cin_boolalpha_def)

lemma trace_retry_body:
  "trace (snd (retry_body alpha get msg uw))
     = trace (snd uw) @ [Cleared, Ignored 80 newline, Cout msg,
         Extracted (\<not> failbit (cin (snd (retry_body alpha get msg uw))))]"
  by (simp add: retry_body_def trace_extraction) (simp add: cout_def cin_ignore_def cin_clear_def)

section \<open>The retry loop\<close>

lemma retry_invariant:
  assumes r: "retry alpha get msg uw = Some r"
    and init: "I uw"
    and step: "\<And>x. I x \<Longrightarrow> \<not> good (cin (snd x)) \<Longrightarrow> I (retry_body alpha get msg x)"
  shows "I r \<and> good (cin (snd r))"
proof -
  let ?P = "\<lambda>a g m x y. a = alpha \<and> g = get \<and> m = msg \<and> I x \<longrightarrow> I y \<and> good (cin (snd y))"
  have "?P alpha get msg uw r"
  proof (rule retry.raw_induct [where P = ?P, OF _ r])
    fix rt a g m x y
    assume IH: "\<And>a g m x y. rt a g m x = Some y \<Longrightarrow> ?P a g m x y"
      and eq: "(if \<not> good (cin (snd x)) then rt a g m (retry_body a g m x) else Some x) = Some y"
    show "?P a g m x y"
    proof (cases "good (cin (snd x))")
      case True
      with eq show ?thesis by simp
    next
      case False
      with eq have "rt a g m (retry_body a g m x) = Some y" by simp
      from IH [OF this] step False show ?thesis by blast
    qed
  qed
  with init show ?thesis by simp
qed

lemma retry_good: "retry alpha get msg uw = Some r \<Longrightarrow> good (cin (snd r))"
  using retry_invariant [where I = "\<lambda>_. True"] by blast

lemma retry_None:
  assumes "J uw"
    and "\<And>x. J x \<Longrightarrow> \<not> good (cin (snd x)) \<and> J (retry_body alpha get msg x)"
  shows "retry alpha get msg uw = None"
proof (rule ccontr)
  assume "retry alpha get msg uw \<noteq> None"
  then obtain r where "retry alpha get msg uw = Some r" by blast
  from retry_invariant [OF this, where I = J] assms have "J r \<and> good (cin (snd r))" by blast
  with assms(2) show False by blast
qed

lemma retry_None_iterates:
  "retry alpha get msg uw = None \<Longrightarrow>
     \<not> good (cin (snd ((retry_body alpha get msg ^^ k) uw)))"
proof (induction k arbitrary: uw)
  case 0
  then show ?case by (subst (asm) retry.simps) (auto split: if_splits)
next
  case (Suc k)
  from Suc.prems have ng: "\<not> good (cin (snd uw))"
    by (subst (asm) retry.simps) (auto split: if_splits)
  with Suc.prems have "retry alpha get msg (retry_body alpha get msg uw) = None"
    by (subst (asm) retry.simps) simp
  from Suc.IH [OF this] show ?case by (simp add: funpow_swap1)
qed

lemma read_loop_unfold:
  "read_loop alpha get msg u w =
     (if good (cin (snd (extraction alpha get u w))) then Some (extraction alpha get u w)
      else read_loop alpha get msg (fst (extraction alpha get u w))
             (cout [Cout msg] (cin_ignore 80 newline (cin_clear (snd (extraction alpha get u w))))))"
  unfolding read_loop_def by (subst retry.simps) (simp add: retry_body_def)

lemma eof_stuck:
  assumes "buf (cin (snd uw)) = []" and "\<not> good (cin (snd uw))"
  shows "retry alpha get msg uw = None"
proof (rule retry_None [where J = "\<lambda>x. buf (cin (snd x)) = [] \<and> \<not> good (cin (snd x))"])
  show "buf (cin (snd uw)) = [] \<and> \<not> good (cin (snd uw))" using assms by simp
next
  fix x :: "'a \<times> world"
  assume "buf (cin (snd x)) = [] \<and> \<not> good (cin (snd x))"
  then show "\<not> good (cin (snd x)) \<and>
      (buf (cin (snd (retry_body alpha get msg x))) = []
       \<and> \<not> good (cin (snd (retry_body alpha get msg x))))"
    by (simp add: retry_body_def extraction_def cin_extract_def formatted_input_def
          cin_boolalpha_def cout_def cin_ignore_def ignore_def cin_clear_def clear_def good_def)
qed

lemma prompts_retry_body:
  "prompts msg (snd (retry_body alpha get msg uw)) = Suc (prompts msg (snd uw))"
  by (simp add: prompts_def trace_retry_body)

lemma prompts_iterates:
  "prompts msg (snd ((retry_body alpha get msg ^^ k) uw)) = prompts msg (snd uw) + k"
  by (induction k) (simp_all add: prompts_retry_body)

section \<open>Conversions and entries\<close>

lemma takeWhile_stop: "\<not> P y \<Longrightarrow> takeWhile P (xs @ y # ys) = takeWhile P xs"
  by (induction xs) auto

lemma dropWhile_stop: "\<not> P y \<Longrightarrow> dropWhile P (xs @ y # ys) = dropWhile P xs @ y # ys"
  by (induction xs) auto

lemma isdigit_newline: "\<not> isdigit newline"
  by (simp add: isdigit_def newline_def)

lemma isspace_newline: "isspace newline"
  by (simp add: isspace_def newline_def)

lemma get_sign_append: "b \<noteq> [] \<Longrightarrow> get_sign (b @ xs) = (fst (get_sign b), snd (get_sign b) @ xs)"
  by (cases b) auto

lemma newline_not_sign: "newline \<noteq> CHR ''-''" "newline \<noteq> CHR ''+''"
  by (simp_all add: newline_def)

lemma get_sign_suffix: "\<exists>pre. b = pre @ snd (get_sign b)"
  by (cases b) auto

lemma rest_num_get_int: "rest (num_get_int a b) = dropWhile isdigit (snd (get_sign b))"
  by (simp add: num_get_int_def Let_def)

lemma num_get_int_local: "entry_local num_get_int"
  unfolding entry_local_def
proof (intro allI conjI)
  fix a :: bool and b nxt :: string
  show "num_get_int a (b @ newline # nxt)
          = (num_get_int a b)\<lparr>hit_eof := False, rest := rest (num_get_int a b) @ newline # nxt\<rparr>"
  proof (cases "b = []")
    case True
    then show ?thesis
      by (simp add: num_get_int_def newline_not_sign isdigit_newline Let_def)
  next
    case False
    then show ?thesis
      by (simp add: num_get_int_def get_sign_append takeWhile_stop dropWhile_stop
            isdigit_newline Let_def)
  qed
  obtain p1 where p1: "b = p1 @ snd (get_sign b)"
    using get_sign_suffix by blast
  have "snd (get_sign b) = takeWhile isdigit (snd (get_sign b)) @ rest (num_get_int a b)"
    by (simp add: rest_num_get_int)
  with p1 have "b = (p1 @ takeWhile isdigit (snd (get_sign b))) @ rest (num_get_int a b)"
    by simp
  then show "\<exists>pre. b = pre @ rest (num_get_int a b)" by blast
qed

lemma get_sign_stop:
  "get_sign (b @ newline # nxt) = (fst (get_sign b), snd (get_sign b) @ newline # nxt)"
  by (cases b) (auto simp: newline_not_sign)

lemma match_name_stop:
  "newline \<notin> set n \<Longrightarrow>
     match_name n (b @ newline # nxt)
       = (fst (match_name n b), False, snd (snd (match_name n b)) @ newline # nxt)"
proof (induction n b rule: match_name.induct)
  case (1 s)
  then show ?case by simp
next
  case (2 n ns)
  then show ?case by auto
next
  case (3 n ns c cs)
  then show ?case by auto
qed

lemma match_name_suffix: "\<exists>pre. b = pre @ snd (snd (match_name n b))"
proof (induction n b rule: match_name.induct)
  case (1 s)
  show ?case by simp
next
  case (2 n ns)
  show ?case by simp
next
  case (3 n ns c cs)
  show ?case
  proof (cases "n = c")
    case True
    from 3 [OF True] obtain pre where "cs = pre @ snd (snd (match_name ns cs))" by blast
    then have "c # cs = (c # pre) @ snd (snd (match_name (n # ns) (c # cs)))"
      using True by simp
    then show ?thesis by blast
  next
    case False
    then show ?thesis by simp
  qed
qed

lemma newline_not_letter: "newline \<noteq> CHR ''t''" "newline \<noteq> CHR ''f''"
  "newline \<notin> set ''true''" "newline \<notin> set ''false''"
  by (simp_all add: newline_def)

lemma get_name_stop:
  "newline \<notin> set name \<Longrightarrow>
     get_name v name (b @ newline # nxt)
       = (get_name v name b)\<lparr>hit_eof := False, rest := rest (get_name v name b) @ newline # nxt\<rparr>"
  by (simp add: get_name_def match_name_stop split: prod.splits)

lemma get_name_suffix: "\<exists>pre. b = pre @ rest (get_name v name b)"
  using match_name_suffix [of b name] by (auto simp: get_name_def split: prod.splits)

lemma num_get_bool_local: "entry_local num_get_bool"
  unfolding entry_local_def
proof (intro allI conjI)
  fix a :: bool and b nxt :: string
  have int: "num_get_int a' (b @ newline # nxt)
          = (num_get_int a' b)\<lparr>hit_eof := False, rest := rest (num_get_int a' b) @ newline # nxt\<rparr>"
    for a'
    using num_get_int_local by (simp add: entry_local_def)
  show "num_get_bool a (b @ newline # nxt)
          = (num_get_bool a b)\<lparr>hit_eof := False, rest := rest (num_get_bool a b) @ newline # nxt\<rparr>"
  proof (cases a)
    case False
    then show ?thesis
      by (simp add: num_get_bool_def int Let_def)
  next
    case True
    show ?thesis
    proof (cases "b = []")
      case b: True
      with True show ?thesis
        by (simp add: num_get_bool_def newline_not_letter)
    next
      case b: False
      with True show ?thesis
        by (simp add: num_get_bool_def list.case_eq_if get_name_stop [OF newline_not_letter(3)]
              get_name_stop [OF newline_not_letter(4)])
    qed
  qed
  show "\<exists>pre. b = pre @ rest (num_get_bool a b)"
  proof (cases a)
    case False
    from num_get_int_local obtain pre where "b = pre @ rest (num_get_int a b)"
      unfolding entry_local_def by blast
    with False show ?thesis
      by (auto simp: num_get_bool_def Let_def)
  next
    case True
    then show ?thesis
      using get_name_suffix [of b True "''true''"] get_name_suffix [of b False "''false''"]
      by (auto simp: num_get_bool_def list.case_eq_if)
  qed
qed


lemma get_char_stop:
  "newline \<notin> set cs \<Longrightarrow>
     get_char cs (b @ newline # nxt) = (fst (get_char cs b), snd (get_char cs b) @ newline # nxt)"
  by (cases b) auto

lemma get_char_suffix: "\<exists>pre. b = pre @ snd (get_char cs b)"
  by (cases b) auto

lemma newline_not_mark: "newline \<notin> set ''.''" "newline \<notin> set ''eE''"
  by (simp_all add: newline_def)

lemma scan_float_stop:
  "scan_float (b @ newline # nxt)
     = (scan_float b)\<lparr>unread := unread (scan_float b) @ newline # nxt\<rparr>"
  by (simp add: scan_float_def Let_def get_sign_stop takeWhile_stop dropWhile_stop
        isdigit_newline get_char_stop [OF newline_not_mark(1)]
        get_char_stop [OF newline_not_mark(2)])


lemma digits_suffix: "\<exists>pre. xs = pre @ dropWhile isdigit xs"
proof -
  have "xs = takeWhile isdigit xs @ dropWhile isdigit xs" by simp
  then show ?thesis by blast
qed

lemma suffix_trans:
  assumes "\<exists>pre. (a :: string) = pre @ b" and "\<exists>pre. b = pre @ c"
  shows "\<exists>pre. a = pre @ c"
proof -
  from assms obtain p q where "a = p @ b" and "b = q @ c" by blast
  then have "a = (p @ q) @ c" by simp
  then show ?thesis by blast
qed

lemma scan_float_suffix: "\<exists>pre. b = pre @ unread (scan_float b)"
proof -
  let ?s1 = "snd (get_sign b)"
  let ?s2 = "snd (get_char ''.'' (dropWhile isdigit ?s1))"
  let ?s3 = "dropWhile isdigit ?s2"
  let ?s4 = "snd (get_char ''eE'' ?s3)"
  let ?s5 = "dropWhile isdigit (snd (get_sign ?s4))"
  have a1: "\<exists>pre. b = pre @ ?s1" by (rule get_sign_suffix)
  have a2: "\<exists>pre. b = pre @ ?s2"
    by (rule suffix_trans [OF suffix_trans [OF a1 digits_suffix] get_char_suffix])
  have a3: "\<exists>pre. b = pre @ ?s3"
    by (rule suffix_trans [OF a2 digits_suffix])
  have a4: "\<exists>pre. b = pre @ ?s4"
    by (rule suffix_trans [OF a3 get_char_suffix])
  have a5: "\<exists>pre. b = pre @ ?s5"
    by (rule suffix_trans [OF suffix_trans [OF a4 get_sign_suffix] digits_suffix])
  have "unread (scan_float b) = ?s3 \<or> unread (scan_float b) = ?s5"
    by (simp add: scan_float_def Let_def)
  with a3 a5 show ?thesis by auto
qed

lemma num_get_float_local: "entry_local num_get_float"
  unfolding entry_local_def
proof (intro allI conjI)
  fix a :: bool and b nxt :: string
  show "num_get_float a (b @ newline # nxt)
      = (num_get_float a b)\<lparr>hit_eof := False, rest := rest (num_get_float a b) @ newline # nxt\<rparr>"
    by (simp add: num_get_float_def scan_float_stop Let_def)
  have "rest (num_get_float a b) = unread (scan_float b)"
    by (simp add: num_get_float_def Let_def)
  with scan_float_suffix [of b] show "\<exists>pre. b = pre @ rest (num_get_float a b)"
    by simp
qed

lemma discard_line:
  "d \<notin> set r \<Longrightarrow> length r \<le> n \<Longrightarrow>
     discard n d (r @ d # nxt) = (if length r < n then nxt else d # nxt, False)"
  by (induction r arbitrary: n) auto

lemma dropWhile_isspace_entry:
  assumes "\<forall>c\<in>set pre. isspace c" and "dropWhile isspace t \<noteq> []"
  shows "dropWhile isspace (pre @ t @ xs) = dropWhile isspace t @ xs"
proof -
  from assms(2) obtain x where "x \<in> set t" and "\<not> isspace x"
    by (auto simp: dropWhile_eq_Nil_conv)
  then have "dropWhile isspace (t @ xs) = dropWhile isspace t @ xs"
    by (rule dropWhile_append1)
  moreover from assms(1) have "dropWhile isspace (pre @ t @ xs) = dropWhile isspace (t @ xs)"
    by (simp add: dropWhile_append2)
  ultimately show ?thesis by simp
qed

lemma extraction_entry:
  assumes loc: "entry_local get" and g: "good (cin w)"
    and b: "buf (cin w) = pre @ t @ newline # nxt"
    and pre: "\<forall>c\<in>set pre. isspace c" and t: "dropWhile isspace t \<noteq> []"
    and a: "a = (alpha \<or> boolalpha (cin w))"
  shows "extraction alpha get u w =
     (stored (get a (dropWhile isspace t)),
      \<lparr>cin = \<lparr>buf = rest (get a (dropWhile isspace t)) @ newline # nxt,
               failbit = \<not> ok (get a (dropWhile isspace t)),
               eofbit = False, boolalpha = a\<rparr>,
        trace = trace w @ [Extracted (ok (get a (dropWhile isspace t)))]\<rparr>)"
proof -
  have d: "dropWhile isspace (buf (cin w)) = dropWhile isspace t @ newline # nxt"
    using b dropWhile_isspace_entry [OF pre t] by simp
  from loc have l: "get a (dropWhile isspace t @ newline # nxt)
      = (get a (dropWhile isspace t))\<lparr>hit_eof := False,
           rest := rest (get a (dropWhile isspace t)) @ newline # nxt\<rparr>"
    by (simp add: entry_local_def)
  have ne: "\<not> (\<forall>x\<in>set (buf (cin w)). isspace x)"
  proof
    assume "\<forall>x\<in>set (buf (cin w)). isspace x"
    then have "dropWhile isspace (buf (cin w)) = []" by simp
    with d show False by simp
  qed
  show ?thesis
    using g d l a ne
    by (cases w; cases "cin w")
      (auto simp: extraction_def cin_extract_def formatted_input_def cin_boolalpha_def good_def)
qed

lemma rest_suffix:
  assumes "entry_local get"
  shows "set (rest (get a b)) \<subseteq> set b" and "length (rest (get a b)) \<le> length b"
proof -
  from assms obtain pre where p: "b = pre @ rest (get a b)"
    unfolding entry_local_def by blast
  have "set (rest (get a b)) \<subseteq> set (pre @ rest (get a b))" by simp
  with p show "set (rest (get a b)) \<subseteq> set b" by simp
  have "length (rest (get a b)) \<le> length (pre @ rest (get a b))" by simp
  with p show "length (rest (get a b)) \<le> length b" by simp
qed

lemma accept_step:
  assumes loc: "entry_local get" and g: "good (cin w)"
    and b: "buf (cin w) = pre @ t @ newline # nxt"
    and pre: "\<forall>c\<in>set pre. isspace c"
    and acc: "accepted get a t v"
    and a: "a = (alpha \<or> boolalpha (cin w))"
  shows "read_loop alpha get msg u w =
     Some (v, \<lparr>cin = \<lparr>buf = rest (get a (dropWhile isspace t)) @ newline # nxt,
                       failbit = False, eofbit = False, boolalpha = a\<rparr>,
                trace = trace w @ [Extracted True]\<rparr>)"
proof -
  from acc have t: "dropWhile isspace t \<noteq> []" and ok: "ok (get a (dropWhile isspace t))"
    and v: "stored (get a (dropWhile isspace t)) = v"
    by (simp_all add: accepted_def)
  note e = extraction_entry [OF loc g b pre t a, of u]
  show ?thesis
    by (subst read_loop_unfold) (simp add: e ok v good_def)
qed

lemma reject_step:
  assumes loc: "entry_local get" and g: "good (cin w)"
    and b: "buf (cin w) = pre @ t @ newline # nxt"
    and pre: "\<forall>c\<in>set pre. isspace c"
    and rej: "rejected get a t" and len: "length t \<le> 80"
    and a: "a = (alpha \<or> boolalpha (cin w))"
  shows "\<exists>pre' u'. (\<forall>c\<in>set pre'. isspace c) \<and>
     read_loop alpha get msg u w =
       read_loop alpha get msg u'
         \<lparr>cin = \<lparr>buf = pre' @ nxt, failbit = False, eofbit = False, boolalpha = a\<rparr>,
          trace = trace w @ retry_events msg\<rparr>"
proof -
  let ?p = "get a (dropWhile isspace t)"
  from rej have t: "dropWhile isspace t \<noteq> []" and nok: "\<not> ok ?p" and nl: "newline \<notin> set t"
    by (simp_all add: rejected_def)
  note e = extraction_entry [OF loc g b pre t a, of u]
  have "set (rest ?p) \<subseteq> set (dropWhile isspace t)"
    and l1: "length (rest ?p) \<le> length (dropWhile isspace t)"
    using rest_suffix [OF loc] by blast+
  moreover have "set (dropWhile isspace t) \<subseteq> set t"
    by (rule set_dropWhileD [THEN subsetI]) 
  moreover have "length (dropWhile isspace t) \<le> length t"
    by (rule length_dropWhile_le)
  ultimately have nl': "newline \<notin> set (rest ?p)" and l: "length (rest ?p) \<le> 80"
    using nl len by auto
  note d = discard_line [OF nl' l, of nxt]
  let ?pre' = "if length (rest ?p) < 80 then [] else [newline]"
  have sp: "\<forall>c\<in>set ?pre'. isspace c" by (simp add: isspace_newline)
  have "read_loop alpha get msg u w =
       read_loop alpha get msg (stored ?p)
         \<lparr>cin = \<lparr>buf = ?pre' @ nxt, failbit = False, eofbit = False, boolalpha = a\<rparr>,
          trace = trace w @ retry_events msg\<rparr>"
    by (subst read_loop_unfold)
      (simp add: e nok good_def cin_clear_def clear_def cin_ignore_def ignore_def d cout_def
        retry_events_def)
  with sp show ?thesis by blast
qed

lemma entries_Cons: "entries (t # ts) @ xs = t @ newline # entries ts @ xs"
  by (simp add: entries_def)

lemma entries_Nil: "entries [] = []"
  by (simp add: entries_def)

lemma entries_append: "entries (ts @ us) = entries ts @ entries us"
  by (simp add: entries_def)

lemma read_entries:
  assumes loc: "entry_local get"
    and rej: "\<forall>t\<in>set ts. rejected get a t \<and> length t \<le> 80"
    and acc: "accepted get a g v"
    and g: "good (cin w)"
    and b: "buf (cin w) = pre @ entries ts @ g @ newline # nxt"
    and pre: "\<forall>c\<in>set pre. isspace c"
    and a: "a = (alpha \<or> boolalpha (cin w))"
  shows "read_loop alpha get msg u w =
     Some (v, \<lparr>cin = \<lparr>buf = rest (get a (dropWhile isspace g)) @ newline # nxt,
                       failbit = False, eofbit = False, boolalpha = a\<rparr>,
                trace = trace w @ concat (replicate (length ts) (retry_events msg))
                          @ [Extracted True]\<rparr>)"
  using rej g b pre a
proof (induction ts arbitrary: u w pre)
  case Nil
  from Nil.prems(3) have b0: "buf (cin w) = pre @ g @ newline # nxt"
    by (simp add: entries_Nil)
  from accept_step [where msg = msg and u = u, OF loc Nil.prems(2) b0 Nil.prems(4) acc Nil.prems(5)]
  show ?case by simp
next
  case (Cons t ts)
  from Cons.prems(1) have rt: "rejected get a t" and lt: "length t \<le> 80"
    and rts: "\<forall>t\<in>set ts. rejected get a t \<and> length t \<le> 80"
    by simp_all
  from Cons.prems(3) have b': "buf (cin w) = pre @ t @ newline # (entries ts @ g @ newline # nxt)"
    by (simp add: entries_Cons)
  from reject_step [where msg = msg and u = u, OF loc Cons.prems(2) b' Cons.prems(4) rt lt Cons.prems(5)]
  obtain pre' u' where sp: "\<forall>c\<in>set pre'. isspace c"
    and eq: "read_loop alpha get msg u w =
       read_loop alpha get msg u'
         \<lparr>cin = \<lparr>buf = pre' @ entries ts @ g @ newline # nxt, failbit = False,
                  eofbit = False, boolalpha = a\<rparr>,
          trace = trace w @ retry_events msg\<rparr>"
    by auto
  let ?w2 = "\<lparr>cin = \<lparr>buf = pre' @ entries ts @ g @ newline # nxt, failbit = False,
                  eofbit = False, boolalpha = a\<rparr>,
          trace = trace w @ retry_events msg\<rparr>"
  have "read_loop alpha get msg u' ?w2 =
     Some (v, \<lparr>cin = \<lparr>buf = rest (get a (dropWhile isspace g)) @ newline # nxt,
                       failbit = False, eofbit = False, boolalpha = a\<rparr>,
                trace = trace ?w2 @ concat (replicate (length ts) (retry_events msg))
                          @ [Extracted True]\<rparr>)"
    by (rule Cons.IH [OF rts _ _ sp]) (use Cons.prems(5) in \<open>auto simp: good_def\<close>)
  with eq show ?case by simp
qed

lemma read_entries_None:
  assumes loc: "entry_local get"
    and rej: "\<forall>t\<in>set ts. rejected get a t \<and> length t \<le> 80"
    and g: "good (cin w)"
    and b: "buf (cin w) = pre @ entries ts"
    and pre: "\<forall>c\<in>set pre. isspace c"
    and a: "a = (alpha \<or> boolalpha (cin w))"
  shows "read_loop alpha get msg u w = None"
  using rej g b pre a
proof (induction ts arbitrary: u w pre)
  case Nil
  then have "\<forall>c\<in>set (buf (cin w)). isspace c" by (simp add: entries_Nil)
  with Nil.prems(2)
  have "buf (cin (snd (extraction alpha get u w))) = []
      \<and> \<not> good (cin (snd (extraction alpha get u w)))"
    by (simp add: extraction_def cin_extract_def formatted_input_def cin_boolalpha_def good_def)
  then show ?case unfolding read_loop_def by (simp add: eof_stuck)
next
  case (Cons t ts)
  from Cons.prems(1) have rt: "rejected get a t" and lt: "length t \<le> 80"
    and rts: "\<forall>t\<in>set ts. rejected get a t \<and> length t \<le> 80"
    by simp_all
  from Cons.prems(3) have b': "buf (cin w) = pre @ t @ newline # (entries ts @ [])"
    using entries_Cons [of t ts "[]"] by simp
  from reject_step [where msg = msg and u = u, OF loc Cons.prems(2) b' Cons.prems(4) rt lt Cons.prems(5)]
  obtain pre' u' where sp: "\<forall>c\<in>set pre'. isspace c"
    and eq: "read_loop alpha get msg u w =
       read_loop alpha get msg u'
         \<lparr>cin = \<lparr>buf = pre' @ entries ts, failbit = False,
                  eofbit = False, boolalpha = a\<rparr>,
          trace = trace w @ retry_events msg\<rparr>"
    by auto
  let ?w2 = "\<lparr>cin = \<lparr>buf = pre' @ entries ts, failbit = False,
                  eofbit = False, boolalpha = a\<rparr>,
          trace = trace w @ retry_events msg\<rparr>"
  have "read_loop alpha get msg u' ?w2 = None"
    by (rule Cons.IH [OF rts _ _ sp]) (use Cons.prems(5) in \<open>auto simp: good_def\<close>)
  with eq show ?case by simp
qed

section \<open>The range loop\<close>

lemma range_retry_in:
  "lo \<le> v \<Longrightarrow> v \<le> hi \<Longrightarrow> range_retry lo hi msg rd (v, w) = Some (v, w)"
  by (subst range_retry.simps) auto

lemma range_retry_out:
  "v < lo \<or> hi < v \<Longrightarrow>
     range_retry lo hi msg rd (v, w)
       = (case rd (cout msg w) of None \<Rightarrow> None | Some vw' \<Rightarrow> range_retry lo hi msg rd vw')"
  by (subst range_retry.simps) auto

lemma range_retry_invariant:
  assumes r: "range_retry lo hi msg rd vw = Some r"
    and init: "Q vw"
    and step: "\<And>x y. rd x = Some y \<Longrightarrow> Q y"
  shows "Q r \<and> lo \<le> fst r \<and> fst r \<le> hi"
proof -
  let ?P = "\<lambda>l h m f x y. l = lo \<and> h = hi \<and> f = rd \<and> Q x \<longrightarrow> Q y \<and> lo \<le> fst y \<and> fst y \<le> hi"
  have "?P lo hi msg rd vw r"
  proof (rule range_retry.raw_induct [where P = ?P, OF _ r])
    fix rr l h m f x y
    assume IH: "\<And>l h m f x y. rr l h m f x = Some y \<Longrightarrow> ?P l h m f x y"
      and eq: "(if fst x < l \<or> h < fst x
                then case f (cout m (snd x)) of None \<Rightarrow> None | Some vw' \<Rightarrow> rr l h m f vw'
                else Some x) = Some y"
    show "?P l h m f x y"
    proof (cases "fst x < l \<or> h < fst x")
      case False
      with eq show ?thesis by auto
    next
      case True
      with eq obtain z where z: "f (cout m (snd x)) = Some z" and "rr l h m f z = Some y"
        by (auto split: option.splits)
      from IH [OF this(2)] step z show ?thesis by blast
    qed
  qed
  with init show ?thesis by simp
qed

lemma range_retry_result:
  "range_retry lo hi msg rd vw = Some r \<Longrightarrow> lo \<le> fst r \<and> fst r \<le> hi"
  using range_retry_invariant [where Q = "\<lambda>_. True"] by blast

lemma read_in_range_invariant:
  assumes "read_in_range lo hi msg rd w = Some r" and "\<And>x y. rd x = Some y \<Longrightarrow> Q y"
  shows "Q r \<and> lo \<le> fst r \<and> fst r \<le> hi"
proof -
  from assms(1) obtain vw where "rd w = Some vw" and "range_retry lo hi msg rd vw = Some r"
    by (auto simp: read_in_range_def split: option.splits)
  with assms(2) range_retry_invariant [of lo hi msg rd vw r Q] show ?thesis by blast
qed

section \<open>What the readers return\<close>

lemma extraction_converted:
  assumes "good (cin (snd (extraction alpha get u w)))"
  shows "\<exists>a b. ok (get a b) \<and> stored (get a b) = fst (extraction alpha get u w)"
proof -
  let ?w = "if alpha then cin_boolalpha w else w"
  from assms have g: "good (snd (formatted_input get u (cin ?w)))"
    by (simp add: extraction_def cin_extract_def)
  have f: "fst (extraction alpha get u w) = fst (formatted_input get u (cin ?w))"
    by (simp add: extraction_def cin_extract_def)
  from formatted_input_good(3,4) [OF g] show ?thesis
    unfolding f by metis
qed

lemma extraction_last:
  assumes "good (cin (snd (extraction alpha get u w)))"
  shows "last (trace (snd (extraction alpha get u w))) = Extracted True"
  using assms by (subst trace_extraction) (simp add: good_def)

lemma read_loop_result:
  assumes "read_loop alpha get msg u w = Some r"
  shows "good (cin (snd r)) \<and> last (trace (snd r)) = Extracted True
         \<and> (\<exists>a b. ok (get a b) \<and> stored (get a b) = fst r)"
proof -
  let ?I = "\<lambda>x. \<exists>u0 w0. x = extraction alpha get u0 w0"
  from assms have "retry alpha get msg (extraction alpha get u w) = Some r"
    by (simp add: read_loop_def)
  from retry_invariant [OF this, where I = ?I]
  have "?I r \<and> good (cin (snd r))"
    by (auto simp: retry_body_def)
  then obtain u0 w0 where r: "r = extraction alpha get u0 w0" and g: "good (cin (snd r))"
    by blast
  from g r extraction_converted [of alpha get u0 w0] extraction_last [of alpha get u0 w0]
  show ?thesis by simp
qed

lemma num_get_int_range:
  "ok (num_get_int a b) \<Longrightarrow> INT_MIN \<le> stored (num_get_int a b) \<and> stored (num_get_int a b) \<le> INT_MAX"
  by (auto simp: num_get_int_def Let_def split: if_splits)

lemma examines_run:
  "examines lo hi m rd w vw \<Longrightarrow> read_in_range lo hi m rd w = range_retry lo hi m rd vw"
proof (induction rule: examines.induct)
  case (first vw)
  then show ?case by (simp add: read_in_range_def)
next
  case (again vw vw')
  then show ?case
    by (cases vw) (simp add: range_retry_out)
qed

lemma examines_result:
  assumes "read_in_range lo hi m rd w = Some r"
  shows "examines lo hi m rd w r"
proof -
  from assms obtain vw where f: "rd w = Some vw" and r: "range_retry lo hi m rd vw = Some r"
    by (auto simp: read_in_range_def split: option.splits)
  have "examines lo hi m rd w vw" using f by (rule examines.first)
  with r show ?thesis
  proof -
    let ?P = "\<lambda>l h mm f x y. l = lo \<and> h = hi \<and> mm = m \<and> f = rd \<and> examines lo hi m rd w x
                \<longrightarrow> examines lo hi m rd w y"
    have "?P lo hi m rd vw r"
    proof (rule range_retry.raw_induct [where P = ?P, OF _ r])
      fix rr l h mm f x y
      assume IH: "\<And>l h mm f x y. rr l h mm f x = Some y \<Longrightarrow> ?P l h mm f x y"
        and eq: "(if fst x < l \<or> h < fst x
                  then case f (cout mm (snd x)) of None \<Rightarrow> None | Some vw' \<Rightarrow> rr l h mm f vw'
                  else Some x) = Some y"
      show "?P l h mm f x y"
      proof (cases "fst x < l \<or> h < fst x")
        case False
        with eq show ?thesis by auto
      next
        case True
        with eq obtain z where z: "f (cout mm (snd x)) = Some z" and rz: "rr l h mm f z = Some y"
          by (auto split: option.splits)
        show ?thesis
        proof (intro impI)
          assume a: "l = lo \<and> h = hi \<and> mm = m \<and> f = rd \<and> examines lo hi m rd w x"
          with True z have "examines lo hi m rd w z"
            by (auto intro: examines.again)
          with IH [OF rz] a show "examines lo hi m rd w y" by blast
        qed
      qed
    qed
    with \<open>examines lo hi m rd w vw\<close> show ?thesis by simp
  qed
qed

lemma examines_reader:
  assumes "examines lo hi m rd w vw" and "\<And>x y. rd x = Some y \<Longrightarrow> Q y"
  shows "Q vw"
  using assms by (induction rule: examines.induct) auto


lemma read_int_eq: "read_int u = read_loop False num_get_int int_msg u"
  by (rule ext) (simp add: read_int_def)

lemma read_float_eq: "read_float u = read_loop False num_get_float float_msg u"
  by (rule ext) (simp add: read_float_def)

lemma read_element_eq: "read_element E u = read_loop True (element_get E) (element_msg E) u"
  by (rule ext) (simp add: read_element_def)

lemma examines_read_loop:
  assumes "examines lo hi m (read_loop alpha get msg u) w vw"
  shows "good (cin (snd vw)) \<and> last (trace (snd vw)) = Extracted True
         \<and> (\<exists>a b. ok (get a b) \<and> stored (get a b) = fst vw)"
  using assms read_loop_result [of alpha get msg u]
  by (rule examines_reader)

lemma discard_spec:
  "\<exists>d. s = d @ fst (discard n c s) \<and> length d \<le> n \<and> c \<notin> set (butlast d)
       \<and> (length d = n \<or> (d \<noteq> [] \<and> last d = c)
           \<or> (fst (discard n c s) = [] \<and> snd (discard n c s)))"
proof (induction s arbitrary: n)
  case Nil
  show ?case by (rule exI [of _ "[]"]) auto
next
  case (Cons x xs)
  show ?case
  proof (cases "n = 0")
    case True
    then show ?thesis by (intro exI [of _ "[]"]) simp
  next
    case n: False
    show ?thesis
    proof (cases "x = c")
      case True
      with n show ?thesis by (intro exI [of _ "[c]"]) simp
    next
      case False
      from Cons.IH [of "n - 1"] obtain d where d: "xs = d @ fst (discard (n - 1) c xs)"
        "length d \<le> n - 1" "c \<notin> set (butlast d)"
        "length d = n - 1 \<or> (d \<noteq> [] \<and> last d = c)
           \<or> (fst (discard (n - 1) c xs) = [] \<and> snd (discard (n - 1) c xs))"
        by blast
      have "x # xs = (x # d) @ fst (discard n c (x # xs))"
        using d(1) n False by simp
      moreover have "length (x # d) \<le> n" using d(2) n by simp
      moreover have "c \<notin> set (butlast (x # d))" using d(3) False by simp
      moreover have "length (x # d) = n \<or> (x # d \<noteq> [] \<and> last (x # d) = c)
           \<or> (fst (discard n c (x # xs)) = [] \<and> snd (discard n c (x # xs)))"
        using d(4) n False by auto
      ultimately show ?thesis by blast
    qed
  qed
qed

lemma num_get_int_ok:
  assumes "ok (num_get_int a b)"
  shows "\<exists>tok. b = tok @ rest (num_get_int a b) \<and> snd (get_sign tok) \<noteq> []
           \<and> (\<forall>c\<in>set (snd (get_sign tok)). isdigit c)
           \<and> stored (num_get_int a b) = signed (fst (get_sign tok)) (decimal (snd (get_sign tok)))"
proof -
  let ?ds = "takeWhile isdigit (snd (get_sign b))"
  from assms have ne: "?ds \<noteq> []"
    and st: "stored (num_get_int a b) = signed (fst (get_sign b)) (decimal ?ds)"
    by (auto simp: num_get_int_def Let_def split: if_splits)
  have dig: "\<forall>c\<in>set ?ds. isdigit c"
    by (auto dest: set_takeWhileD)
  have r: "rest (num_get_int a b) = dropWhile isdigit (snd (get_sign b))"
    by (rule rest_num_get_int)
  show ?thesis
  proof (cases b)
    case Nil
    with ne show ?thesis by simp
  next
    case (Cons c cs)
    show ?thesis
    proof (cases "c = CHR ''-'' \<or> c = CHR ''+''")
      case True
      with Cons have gs: "get_sign b = (c = CHR ''-'', cs)" by auto
      let ?tok = "c # takeWhile isdigit cs"
      have "b = ?tok @ rest (num_get_int a b)" using Cons gs r by simp
      moreover have "get_sign ?tok = (c = CHR ''-'', takeWhile isdigit cs)" using True by auto
      ultimately show ?thesis using ne dig st gs by (intro exI [of _ ?tok]) simp
    next
      case False
      with Cons have gs: "get_sign b = (False, b)" by auto
      with ne Cons have dc: "isdigit c" by (auto split: if_splits)
      let ?tok = "takeWhile isdigit b"
      have "b = ?tok @ rest (num_get_int a b)" using gs r by simp
      moreover have "get_sign ?tok = (False, ?tok)" using False Cons dc by auto
      ultimately show ?thesis using ne dig st gs by (intro exI [of _ ?tok]) simp
    qed
  qed
qed

lemma cin_ignore_cleared:
  "cin (cin_ignore n d (cin_clear w))
     = (cin w)\<lparr>buf := fst (discard n d (buf (cin w))), failbit := False,
               eofbit := snd (discard n d (buf (cin w)))\<rparr>"
  by (simp add: cin_ignore_def cin_clear_def ignore_def clear_def good_def)

lemma formatted_input_old_value:
  "snd (formatted_input get u s) = snd (formatted_input get u' s)"
  "good (snd (formatted_input get u s)) \<Longrightarrow>
     fst (formatted_input get u s) = fst (formatted_input get u' s)"
  by (auto simp: formatted_input_def good_def)

lemma extraction_old_value:
  "snd (extraction alpha get u w) = snd (extraction alpha get u' w)"
  "good (cin (snd (extraction alpha get u w))) \<Longrightarrow>
     fst (extraction alpha get u w) = fst (extraction alpha get u' w)"
proof -
  let ?w = "if alpha then cin_boolalpha w else w"
  have s: "snd (formatted_input get u (cin ?w)) = snd (formatted_input get u' (cin ?w))"
    by (rule formatted_input_old_value(1))
  then show "snd (extraction alpha get u w) = snd (extraction alpha get u' w)"
    by (simp add: extraction_def cin_extract_def)
  assume "good (cin (snd (extraction alpha get u w)))"
  then have "good (snd (formatted_input get u (cin ?w)))"
    by (simp add: extraction_def cin_extract_def)
  from formatted_input_old_value(2) [OF this, of u']
  show "fst (extraction alpha get u w) = fst (extraction alpha get u' w)"
    by (simp add: extraction_def cin_extract_def)
qed

lemma retry_old_value:
  assumes r: "retry alpha get msg x = Some r"
    and w: "snd x = snd y" and v: "good (cin (snd x)) \<longrightarrow> fst x = fst y"
  shows "retry alpha get msg y = Some r"
proof -
  let ?P = "\<lambda>a g m x r. \<forall>y. snd x = snd y \<and> (good (cin (snd x)) \<longrightarrow> fst x = fst y)
              \<longrightarrow> retry a g m y = Some r"
  have "?P alpha get msg x r"
  proof (rule retry.raw_induct [where P = ?P, OF _ r])
    fix rt a g m x r
    assume IH: "\<And>a g m x r. rt a g m x = Some r \<Longrightarrow> ?P a g m x r"
      and eq: "(if \<not> good (cin (snd x)) then rt a g m (retry_body a g m x) else Some x) = Some r"
    show "?P a g m x r"
    proof (intro allI impI)
      fix y :: "'b \<times> world"
      assume rel: "snd x = snd y \<and> (good (cin (snd x)) \<longrightarrow> fst x = fst y)"
      show "retry a g m y = Some r"
      proof (cases "good (cin (snd x))")
        case True
        with eq rel have "y = r" by (simp add: prod_eq_iff)
        with True rel show ?thesis by (subst retry.simps) simp
      next
        case False
        with eq have "rt a g m (retry_body a g m x) = Some r" by simp
        from IH [OF this] have p: "?P a g m (retry_body a g m x) r" .
        have "snd (retry_body a g m x) = snd (retry_body a g m y)"
          using rel extraction_old_value(1) [of a g "fst x" _ "fst y"]
          by (simp add: retry_body_def)
        moreover have "good (cin (snd (retry_body a g m x)))
            \<longrightarrow> fst (retry_body a g m x) = fst (retry_body a g m y)"
          using rel extraction_old_value(2) [of a g "fst x" _ "fst y"]
          by (simp add: retry_body_def)
        ultimately have "retry a g m (retry_body a g m y) = Some r"
          using p by blast
        with False rel show ?thesis by (subst retry.simps) simp
      qed
    qed
  qed
  with w v show ?thesis by blast
qed

text \<open>
  What \<^verbatim>\<open>userval\<close> holds before the first extraction has no influence on what a reader
  does or returns.
\<close>

lemma read_loop_initial_value:
  "read_loop alpha get msg u w = read_loop alpha get msg u' w"
proof -
  have one: "read_loop alpha get msg b w = Some r"
    if "read_loop alpha get msg a w = Some r" for a b r
    using that unfolding read_loop_def
    by (rule retry_old_value)
      (use extraction_old_value [of alpha get a w b] in auto)
  show ?thesis
  proof (cases "read_loop alpha get msg u w")
    case None
    show ?thesis
    proof (cases "read_loop alpha get msg u' w")
      case None
      with \<open>read_loop alpha get msg u w = None\<close> show ?thesis by simp
    next
      case (Some r)
      from one [OF this, of u] None show ?thesis by simp
    qed
  next
    case (Some r)
    from one [OF this, of u'] Some show ?thesis by simp
  qed
qed

lemma successful_extraction_at_end:
  assumes "\<not> failbit (cin (snd (extraction False num_get_int u w)))"
    and "\<not> good (cin (snd (extraction False num_get_int u w)))"
  shows "buf (cin (snd (extraction False num_get_int u w))) = []"
  using assms
  by (auto simp: extraction_def cin_extract_def formatted_input_def good_def num_get_int_def
        Let_def split: if_splits)

lemma immediate_return:
  assumes g: "good (cin (snd (extraction alpha get u w)))"
  shows "read_loop alpha get msg u w = Some (extraction alpha get u w)
      \<and> trace (snd (extraction alpha get u w)) = trace w @ [Extracted True]
      \<and> buf (cin (snd (extraction alpha get u w)))
          = rest (get (alpha \<or> boolalpha (cin w)) (dropWhile isspace (buf (cin w))))"
proof -
  let ?w = "if alpha then cin_boolalpha w else w"
  from g have g': "good (snd (formatted_input get u (cin ?w)))"
    by (simp add: extraction_def cin_extract_def)
  have "buf (cin (snd (extraction alpha get u w)))
      = buf (snd (formatted_input get u (cin ?w)))"
    by (simp add: extraction_def cin_extract_def)
  also have "\<dots> = rest (get (boolalpha (cin ?w)) (dropWhile isspace (buf (cin ?w))))"
    by (rule formatted_input_good(5) [OF g'])
  also have "\<dots> = rest (get (alpha \<or> boolalpha (cin w)) (dropWhile isspace (buf (cin w))))"
    by (simp add: cin_boolalpha_def)
  finally have b: "buf (cin (snd (extraction alpha get u w)))
      = rest (get (alpha \<or> boolalpha (cin w)) (dropWhile isspace (buf (cin w))))" .
  have r: "read_loop alpha get msg u w = Some (extraction alpha get u w)"
    using g by (subst read_loop_unfold) simp
  have t: "trace (snd (extraction alpha get u w)) = trace w @ [Extracted True]"
    using g by (subst trace_extraction) (simp add: good_def)
  from r t b show ?thesis by simp
qed

section \<open>Rounding to binary floating point\<close>

text \<open>
  \<open>bits n\<close> is the length of \<open>n\<close> in binary, \<open>ilog2 num den\<close> the exponent of the binade
  of \<open>num / den\<close>, and \<open>round_binary\<close> yields a significand of at most \<open>p\<close> bits times
  the unit in the last place, within half a unit of the exact value.
\<close>

lemma bits_bounds: "0 < n \<Longrightarrow> 2 ^ (bits n - 1) \<le> n \<and> n < 2 ^ bits n"
proof (induction n rule: bits.induct)
  case (1 n)
  show ?case
  proof (cases "n div 2 = 0")
    case True
    with 1(2) have "n = 1" by (simp add: div_eq_0_iff) 
    then show ?thesis by (simp add: bits.simps)
  next
    case False
    then have p: "0 < n div 2" by simp
    from 1(2) have n0: "n \<noteq> 0" by simp
    from 1(1) [OF n0 p] have lo: "2 ^ (bits (n div 2) - 1) \<le> n div 2"
      and hi: "n div 2 < 2 ^ bits (n div 2)" by simp_all
    have b: "bits n = Suc (bits (n div 2))" using n0 by (subst bits.simps) simp
    have bp: "0 < bits (n div 2)" using p by (subst bits.simps) simp
    from lo bp have "2 ^ bits (n div 2) \<le> 2 * (n div 2)"
      by (cases "bits (n div 2)") simp_all
    then have l: "2 ^ (bits n - 1) \<le> n" using b by simp
    from hi have "n div 2 + 1 \<le> 2 ^ bits (n div 2)" by simp
    then have "2 * (n div 2) + 2 \<le> 2 ^ bits n" using b by simp
    then have "n < 2 ^ bits n" by linarith
    with l show ?thesis by simp
  qed
qed

lemma pow2_powi: "pow2 k = 2 powi k"
  by (simp add: pow2_def power_int_def field_simps)

lemma pow2_pos: "0 < pow2 k"
  by (simp add: pow2_powi)

lemma pow2_add: "pow2 (a + b) = pow2 a * pow2 b"
  by (simp add: pow2_powi power_int_add)

lemma pow2_nat: "pow2 (int n) = 2 ^ n"
  by (simp add: pow2_def)

lemma pow2_mono: "a \<le> b \<Longrightarrow> pow2 a \<le> pow2 b"
  by (simp add: pow2_powi power_int_increasing)

lemma ilog2_bounds:
  assumes "0 < num" and "0 < den"
  shows "pow2 (ilog2 num den) \<le> of_nat num / of_nat den"
    and "of_nat num / of_nat den < pow2 (ilog2 num den + 1)"
proof -
  let ?x = "of_nat num / of_nat den :: rat"
  let ?d = "int (bits num) - int (bits den)"
  from bits_bounds [OF assms(1)] have n1: "(2::rat) ^ (bits num - 1) \<le> of_nat num"
    and n2: "of_nat num < (2::rat) ^ bits num"
    by (metis of_nat_le_iff of_nat_numeral of_nat_power, metis of_nat_less_iff of_nat_numeral of_nat_power)
  from bits_bounds [OF assms(2)] have d1: "(2::rat) ^ (bits den - 1) \<le> of_nat den"
    and d2: "of_nat den < (2::rat) ^ bits den"
    by (metis of_nat_le_iff of_nat_numeral of_nat_power, metis of_nat_less_iff of_nat_numeral of_nat_power)
  have bn: "0 < bits num" using assms(1) by (subst bits.simps) simp
  have bd: "0 < bits den" using assms(2) by (subst bits.simps) simp
  have dpos: "(0::rat) < of_nat den" using assms(2) by simp
  have lo: "pow2 (?d - 1) \<le> ?x"
  proof -
    have "pow2 (?d - 1) * of_nat den \<le> pow2 (?d - 1) * 2 ^ bits den"
      using d2 pow2_pos [of "?d - 1"] by (simp add: less_imp_le)
    also have "\<dots> = pow2 (?d - 1) * pow2 (int (bits den))" by (simp add: pow2_nat)
    also have "\<dots> = pow2 (int (bits num) - 1)" by (simp add: pow2_add [symmetric])
    also have "\<dots> = pow2 (int (bits num - 1))" using bn by (simp add: of_nat_diff)
    also have "\<dots> \<le> of_nat num" using n1 by (simp add: pow2_nat)
    finally show ?thesis using dpos by (simp add: pos_le_divide_eq)
  qed
  have hi: "?x < pow2 (?d + 1)"
  proof -
    have "of_nat num < pow2 (int (bits num))" using n2 by (simp add: pow2_nat)
    also have "\<dots> = pow2 (?d + 1) * pow2 (int (bits den - 1))"
      using bd by (simp add: pow2_add [symmetric] of_nat_diff)
    also have "\<dots> \<le> pow2 (?d + 1) * of_nat den"
      using d1 pow2_pos [of "?d + 1"] by (simp add: pow2_nat)
    finally show ?thesis using dpos by (simp add: pos_divide_less_eq)
  qed
  show "pow2 (ilog2 num den) \<le> ?x"
    using lo by (simp add: ilog2_def Let_def)
  show "?x < pow2 (ilog2 num den + 1)"
    using hi by (auto simp: ilog2_def Let_def not_le)
qed

lemma round_half_even_near:
  assumes "0 < d"
  shows "\<bar>of_nat (round_half_even n d) - of_nat n / of_nat d\<bar> \<le> (1 / 2 :: rat)"
proof -
  let ?q = "n div d" and ?r = "n mod d"
  have dpos: "(0::rat) < of_nat d" using assms by simp
  have "n = ?q * d + ?r" by simp
  then have "(of_nat n :: rat) = of_nat (?q * d + ?r)" by (rule arg_cong)
  then have n: "(of_nat n :: rat) = of_nat ?q * of_nat d + of_nat ?r"
    by (simp only: of_nat_add of_nat_mult)
  have x: "of_nat n / of_nat d = (of_nat ?q :: rat) + of_nat ?r / of_nat d"
    using dpos by (subst n) (simp add: add_divide_distrib)
  have rd: "?r < d" using assms by simp
  then have rd': "(of_nat ?r :: rat) < of_nat d" by simp
  have r0: "(0::rat) \<le> of_nat ?r / of_nat d" by simp
  have r1: "(of_nat ?r :: rat) / of_nat d < 1" using rd' dpos by simp
  consider "2 * ?r < d" | "d < 2 * ?r" | "2 * ?r = d" by linarith
  then show ?thesis
  proof cases
    case 1
    then have "(of_nat (2 * ?r) :: rat) < of_nat d" by (simp only: of_nat_less_iff)
    then have "(of_nat ?r :: rat) / of_nat d < 1 / 2" using dpos by (simp add: pos_divide_less_eq)
    moreover have "round_half_even n d = ?q" using 1 by (simp add: round_half_even_def Let_def)
    ultimately show ?thesis using x r0 by simp
  next
    case 2
    then have "(of_nat d :: rat) < of_nat (2 * ?r)" by (simp only: of_nat_less_iff)
    then have "1 / 2 < (of_nat ?r :: rat) / of_nat d" using dpos by (simp add: pos_less_divide_eq)
    moreover have "round_half_even n d = ?q + 1" using 2 by (simp add: round_half_even_def Let_def)
    ultimately show ?thesis using x r1 by simp
  next
    case 3
    then have "(of_nat (2 * ?r) :: rat) = of_nat d" by (simp only:)
    then have h: "(of_nat ?r :: rat) / of_nat d = 1 / 2" using dpos by (simp add: field_simps)
    have "round_half_even n d = ?q \<or> round_half_even n d = ?q + 1"
      by (simp add: round_half_even_def Let_def)
    then show ?thesis using x h by auto
  qed
qed

text \<open>The result of \<open>round_binary\<close> is a multiple of the unit in the last place that is
  within half a unit of the exact value.\<close>

lemma round_binary_near:
  fixes p :: nat and emin :: int
  assumes "0 < num" and "0 < den"
  defines "q \<equiv> max (ilog2 num den) emin - (int p - 1)"
  shows "\<bar>round_binary p emin num den - of_nat num / of_nat den\<bar> \<le> pow2 q / 2"
proof (cases "0 \<le> q")
  case True
  let ?s = "(2::rat) ^ nat q"
  let ?m = "round_half_even num (den * 2 ^ nat q)"
  have p: "pow2 q = ?s" using True by (simp add: pow2_def)
  have s: "0 < ?s" by simp
  have r: "round_binary p emin num den = of_nat ?m * ?s"
    using assms(1) True p by (simp add: round_binary_def Let_def q_def)
  have "\<bar>of_nat ?m - of_nat num / of_nat (den * 2 ^ nat q)\<bar> \<le> (1 / 2 :: rat)"
    using assms(2) by (intro round_half_even_near) simp
  then have le: "\<bar>of_nat ?m - of_nat num / of_nat (den * 2 ^ nat q)\<bar> * ?s \<le> 1 / 2 * ?s"
    using s by (intro mult_right_mono) simp_all
  have eq: "\<bar>of_nat ?m - of_nat num / of_nat (den * 2 ^ nat q)\<bar> * ?s
      = \<bar>of_nat ?m * ?s - of_nat num / of_nat den\<bar>"
  proof -
    have "\<bar>of_nat ?m - of_nat num / of_nat (den * 2 ^ nat q)\<bar> * ?s
        = \<bar>(of_nat ?m - of_nat num / of_nat (den * 2 ^ nat q)) * ?s\<bar>"
      using s by (simp add: abs_mult)
    also have "(of_nat ?m - of_nat num / of_nat (den * 2 ^ nat q)) * ?s
        = of_nat ?m * ?s - of_nat num / of_nat den"
      by (simp add: field_simps)
    finally show ?thesis .
  qed
  have "\<bar>round_binary p emin num den - of_nat num / of_nat den\<bar>
      = \<bar>of_nat ?m - of_nat num / of_nat (den * 2 ^ nat q)\<bar> * ?s"
    by (simp only: r eq)
  also note le
  also have "1 / 2 * ?s = pow2 q / 2" by (simp add: p)
  finally show ?thesis .
next
  case False
  let ?s = "(2::rat) ^ nat (- q)"
  let ?m = "round_half_even (num * 2 ^ nat (- q)) den"
  have p: "pow2 q = 1 / ?s" using False by (simp add: pow2_def)
  have s: "0 < ?s" by simp
  have r: "round_binary p emin num den = of_nat ?m / ?s"
    using assms(1) False p by (simp add: round_binary_def Let_def q_def)
  have "\<bar>of_nat ?m - of_nat (num * 2 ^ nat (- q)) / of_nat den\<bar> \<le> (1 / 2 :: rat)"
    using assms(2) by (intro round_half_even_near)
  then have le: "\<bar>of_nat ?m - of_nat (num * 2 ^ nat (- q)) / of_nat den\<bar> / ?s \<le> 1 / 2 / ?s"
    using s by (intro divide_right_mono) simp_all
  have eq: "\<bar>of_nat ?m - of_nat (num * 2 ^ nat (- q)) / of_nat den\<bar> / ?s
      = \<bar>of_nat ?m / ?s - of_nat num / of_nat den\<bar>"
  proof -
    have "\<bar>of_nat ?m - of_nat (num * 2 ^ nat (- q)) / of_nat den\<bar> / ?s
        = \<bar>(of_nat ?m - of_nat (num * 2 ^ nat (- q)) / of_nat den) / ?s\<bar>"
      using s by simp
    also have "(of_nat ?m - of_nat (num * 2 ^ nat (- q)) / of_nat den) / ?s
        = of_nat ?m / ?s - of_nat num / of_nat den"
      by (simp add: field_simps)
    finally show ?thesis .
  qed
  have "\<bar>round_binary p emin num den - of_nat num / of_nat den\<bar>
      = \<bar>of_nat ?m - of_nat (num * 2 ^ nat (- q)) / of_nat den\<bar> / ?s"
    by (simp only: r eq)
  also note le
  also have "1 / 2 / ?s = pow2 q / 2" by (simp add: p)
  finally show ?thesis .
qed

lemma round_binary_significand:
  fixes p :: nat and emin :: int
  assumes "0 < num" and "0 < den"
  defines "q \<equiv> max (ilog2 num den) emin - (int p - 1)"
  shows "\<exists>m. m \<le> 2 ^ p \<and> round_binary p emin num den = of_nat m * pow2 q"
proof -
  let ?x = "of_nat num / of_nat den :: rat"
  have "\<exists>m. round_binary p emin num den = of_nat m * pow2 q"
    using assms(1) by (simp add: round_binary_def Let_def q_def)
  then obtain m where r: "round_binary p emin num den = of_nat m * pow2 q" ..
  have "\<bar>round_binary p emin num den - ?x\<bar> \<le> pow2 q / 2"
    unfolding q_def by (rule round_binary_near [OF assms(1,2)])
  then have "\<bar>of_nat m * pow2 q - ?x\<bar> \<le> pow2 q / 2"
    by (simp only: r)
  then have a: "of_nat m * pow2 q \<le> ?x + pow2 q / 2"
    by linarith
  have "?x < pow2 (ilog2 num den + 1)" by (rule ilog2_bounds(2) [OF assms(1,2)])
  also have "\<dots> \<le> pow2 (q + int p)" by (rule pow2_mono) (simp add: q_def)
  also have "\<dots> = pow2 q * 2 ^ p" by (simp add: pow2_add pow2_nat)
  finally have "of_nat m * pow2 q < pow2 q * 2 ^ p + pow2 q / 2" using a by simp
  also have "\<dots> = (2 ^ p + 1 / 2) * pow2 q" by (simp add: algebra_simps)
  finally have b: "(of_nat m :: rat) < 2 ^ p + 1 / 2"
    using pow2_pos [of q] by (simp only: mult_less_cancel_right_pos)
  have "m \<le> 2 ^ p"
  proof (rule ccontr)
    assume "\<not> m \<le> 2 ^ p"
    then have "2 ^ p + 1 \<le> m" by simp
    then have "(of_nat (2 ^ p + 1) :: rat) \<le> of_nat m" by (simp only: of_nat_le_iff)
    then show False using b by simp
  qed
  with r show ?thesis by blast
qed

section \<open>Running the program on a given input\<close>

text \<open>The equations that unfold a run on a concrete input, for the simplifier.\<close>

lemmas stream_simps = formatted_input_def good_def clear_def ignore_def isspace_def isdigit_def
  decimal_def digit_val_def signed_def newline_def Let_def cin_extract_def cin_clear_def
  cin_ignore_def cin_boolalpha_def cout_def extraction_def retry_body_def read_loop_def
  retry.simps start_def entries_def

lemmas int_simps = num_get_int_def INT_MAX_def INT_MIN_def read_int_def int_msg_def

lemmas range_simps = read_in_range_def range_retry.simps read_int_in_range_def int_range_msg_def

lemmas round_simps = round_binary_def ilog2_def bits.simps pow2_def round_half_even_def

lemma binary32_55: "round_binary 24 (- 126) 55 10 = 11 / 2"
  by (simp add: round_simps Let_def)

lemma binary32_428: "round_binary 24 (- 126) 428 10 = 11219763 / 262144"
  by (simp add: round_simps Let_def)

lemma binary32_4281: "round_binary 24 (- 126) 4281 100 = 11222385 / 262144"
  by (simp add: round_simps Let_def)

lemma double_55: "double_literal 55 10 = 11 / 2"
  by (simp add: double_literal_def round_simps Let_def)

lemma double_428: "double_literal 428 10 = 3011782250804019 / 70368744177664"
  by (simp add: double_literal_def round_simps Let_def)

lemmas float_field_simps = num_get_float_def scan_float_def isdigit_def decimal_def
  digit_val_def signed_def FLT_MAX_def Let_def

lemma num_get_float_55:
  "num_get_float a (CHR ''5'' # CHR ''.'' # CHR ''5'' # CHR 0x0A # nxt)
     = \<lparr>stored = 11 / 2, ok = True, hit_eof = False, rest = CHR 0x0A # nxt\<rparr>"
  by (simp add: float_field_simps binary32_55)

lemma num_get_float_428:
  "num_get_float a (CHR ''4'' # CHR ''2'' # CHR ''.'' # CHR ''8'' # CHR 0x0A # nxt)
     = \<lparr>stored = 11219763 / 262144, ok = True, hit_eof = False, rest = CHR 0x0A # nxt\<rparr>"
  by (simp add: float_field_simps binary32_428)

lemma num_get_float_4281:
  "num_get_float a (CHR ''4'' # CHR ''2'' # CHR ''.'' # CHR ''8'' # CHR ''1'' # CHR 0x0A # nxt)
     = \<lparr>stored = 11222385 / 262144, ok = True, hit_eof = False, rest = CHR 0x0A # nxt\<rparr>"
  by (simp add: float_field_simps binary32_4281)

lemma num_get_float_x:
  "num_get_float a (CHR ''x'' # nxt)
     = \<lparr>stored = 0, ok = False, hit_eof = False, rest = CHR ''x'' # nxt\<rparr>"
  by (simp add: float_field_simps)

lemmas float_simps = num_get_float_55 num_get_float_428 num_get_float_4281 num_get_float_x
  read_float_def float_msg_def

lemmas float_range_simps = read_in_range_def range_retry.simps read_float_in_range_def
  float_range_msg_def double_55 double_428

lemmas element_simps = read_element_def element_msg_def int_element_def bool_element_def
  num_get_bool_def get_name_def

text \<open>The readers on entries, from the start of the program.\<close>

lemma prompts_retry_events:
  "length (filter (\<lambda>e. e = Cout msg) (concat (replicate n (retry_events msg)))) = n"
  by (induction n) (simp_all add: retry_events_def)

lemma start_simps:
  "good (cin (start s))" "buf (cin (start s)) = s" "boolalpha (cin (start s)) = False"
  "trace (start s) = []"
  by (simp_all add: start_def good_def)

lemma read_loop_entries:
  assumes loc: "entry_local get"
    and rej: "\<forall>t\<in>set ts. rejected get alpha t \<and> length t \<le> 80"
    and acc: "accepted get alpha g v"
  shows "read_loop alpha get msg u (start (entries (ts @ [g]) @ nxt))
     = Some (v, \<lparr>cin = \<lparr>buf = rest (get alpha (dropWhile isspace g)) @ newline # nxt,
                         failbit = False, eofbit = False, boolalpha = alpha\<rparr>,
                 trace = concat (replicate (length ts) (retry_events msg))
                           @ [Extracted True]\<rparr>)"
proof -
  have b: "buf (cin (start (entries (ts @ [g]) @ nxt))) = [] @ entries ts @ g @ newline # nxt"
    by (simp add: start_simps entries_append) (simp add: entries_def)
  have a: "alpha = (alpha \<or> boolalpha (cin (start (entries (ts @ [g]) @ nxt))))"
    by (simp add: start_simps)
  from read_entries [where msg = msg and u = u and pre = "[]",
      OF loc rej acc start_simps(1) b _ a]
  show ?thesis by (simp add: start_simps)
qed

lemma read_loop_entries_None:
  assumes loc: "entry_local get"
    and rej: "\<forall>t\<in>set ts. rejected get alpha t \<and> length t \<le> 80"
  shows "read_loop alpha get msg u (start (entries ts)) = None"
proof -
  have b: "buf (cin (start (entries ts))) = [] @ entries ts"
    by (simp add: start_simps)
  have a: "alpha = (alpha \<or> boolalpha (cin (start (entries ts))))"
    by (simp add: start_simps)
  from read_entries_None [where msg = msg and u = u and pre = "[]",
      OF loc rej start_simps(1) b _ a]
  show ?thesis by simp
qed

lemmas entry_simps = accepted_def rejected_def num_get_int_def INT_MAX_def INT_MIN_def
  isspace_def isdigit_def decimal_def digit_val_def signed_def newline_def Let_def prompts_def


text \<open>
  A field that the end of the input cuts off, with no enter key after it, is converted,
  but the extraction sets \<open>eofbit\<close>, the stream is not good, and the reader does not
  return it.
\<close>

lemma unterminated_entry:
  "extraction False num_get_int u (start ''5'')
     = (5, \<lparr>cin = \<lparr>buf = [], failbit = False, eofbit = True, boolalpha = False\<rparr>,
            trace = [Extracted True]\<rparr>)"
  "read_int u (start ''5'') = None"
proof -
  show e: "extraction False num_get_int u (start ''5'')
     = (5, \<lparr>cin = \<lparr>buf = [], failbit = False, eofbit = True, boolalpha = False\<rparr>,
            trace = [Extracted True]\<rparr>)"
    by (simp add: stream_simps int_simps)
  show "read_int u (start ''5'') = None"
    unfolding read_int_def read_loop_def
    by (rule eof_stuck) (simp_all add: e good_def)
qed

section \<open>The claims\<close>

text \<open>
  C1. Let the type-checked reader have returned \<open>v\<close> in state \<open>w\<close>. The range-checked
  reader returns \<open>v\<close> if and only if \<open>lo \<le> v \<le> hi\<close>, and then at once and in the
  same state. When \<open>v\<close> is out of range it writes the range message and calls the
  reader again, and whatever it returns in the end is in range, hence not \<open>v\<close>. This
  holds for all bounds; \<open>lo \<le> hi\<close> is not needed.
\<close>

theorem range_checked_reader_returns_iff_in_range:
  assumes "rd w0 = Some (v, w)"
  shows "((\<exists>w'. read_in_range lo hi msg rd w0 = Some (v, w')) \<longleftrightarrow> lo \<le> v \<and> v \<le> hi)
    \<and> (lo \<le> v \<and> v \<le> hi \<longrightarrow> read_in_range lo hi msg rd w0 = Some (v, w))
    \<and> (\<not> (lo \<le> v \<and> v \<le> hi) \<longrightarrow>
         read_in_range lo hi msg rd w0
           = (case rd (cout msg w) of None \<Rightarrow> None
              | Some vw' \<Rightarrow> range_retry lo hi msg rd vw')
         \<and> trace (cout msg w) = trace w @ msg
         \<and> (\<forall>v' w'. read_in_range lo hi msg rd w0 = Some (v', w')
               \<longrightarrow> v' \<noteq> v \<and> lo \<le> v' \<and> v' \<le> hi))"
proof -
  have eq: "read_in_range lo hi msg rd w0 = range_retry lo hi msg rd (v, w)"
    using assms by (simp add: read_in_range_def)
  have inr: "lo \<le> v \<and> v \<le> hi \<Longrightarrow> read_in_range lo hi msg rd w0 = Some (v, w)"
    using eq by (simp add: range_retry_in)
  have res: "\<And>v' w'. read_in_range lo hi msg rd w0 = Some (v', w') \<Longrightarrow> lo \<le> v' \<and> v' \<le> hi"
    using eq range_retry_result [of lo hi msg rd "(v, w)"] by fastforce
  have out: "\<not> (lo \<le> v \<and> v \<le> hi) \<Longrightarrow>
      read_in_range lo hi msg rd w0
        = (case rd (cout msg w) of None \<Rightarrow> None | Some vw' \<Rightarrow> range_retry lo hi msg rd vw')"
  proof -
    assume "\<not> (lo \<le> v \<and> v \<le> hi)"
    then have "v < lo \<or> hi < v" by auto
    from range_retry_out [OF this] eq show ?thesis by simp
  qed
  have iff: "(\<exists>w'. read_in_range lo hi msg rd w0 = Some (v, w')) \<longleftrightarrow> lo \<le> v \<and> v \<le> hi"
    using inr res by blast
  have tr: "trace (cout msg w) = trace w @ msg"
    by (simp add: cout_def)
  show ?thesis
    using iff inr out tr res by blast
qed

theorem range_checked_reader_returns_iff_in_range_witness:
  "read_int 0 (start (entries [''50'', ''6'']))
     = Some (50, \<lparr>cin = \<lparr>buf = newline # ''6'' @ [newline], failbit = False, eofbit = False,
                          boolalpha = False\<rparr>,
                  trace = [Extracted True]\<rparr>)
   \<and> (37::int) < 50
   \<and> read_in_range 6 37 int_range_msg (read_int 0) (start (entries [''50'', ''6'']))
     = Some (6, \<lparr>cin = \<lparr>buf = [newline], failbit = False, eofbit = False, boolalpha = False\<rparr>,
                 trace = [Extracted True] @ int_range_msg @ [Extracted True]\<rparr>)"
proof -
  let ?w = "\<lparr>cin = \<lparr>buf = newline # ''6'' @ [newline], failbit = False, eofbit = False,
                          boolalpha = False\<rparr>,
                  trace = [Extracted True]\<rparr>"
  have h: "read_int 0 (start (entries [''50'', ''6''])) = Some (50, ?w)"
    by (simp add: stream_simps int_simps)
  have k: "(case read_int 0 (cout int_range_msg ?w) of None \<Rightarrow> None
            | Some vw' \<Rightarrow> range_retry 6 37 int_range_msg (read_int 0) vw')
     = Some (6, \<lparr>cin = \<lparr>buf = [newline], failbit = False, eofbit = False, boolalpha = False\<rparr>,
                 trace = [Extracted True] @ int_range_msg @ [Extracted True]\<rparr>)"
    by (simp add: stream_simps int_simps range_simps)
  from range_checked_reader_returns_iff_in_range
         [where rd = "read_int 0" and ?w0.0 = "start (entries [''50'', ''6''])"
            and lo = 6 and hi = 37 and msg = int_range_msg, OF h] k h
  show ?thesis by simp
qed



text \<open>
  An entry of 81 letters is rejected twice: \<^verbatim>\<open>cin.ignore(80, '\n')\<close> drops 80 of them,
  and the one that is left fails the next extraction. One rejected entry, two messages.
\<close>

theorem one_prompt_per_entry_counterexample:
  "rejected num_get_int False ''aaaaaaaaaaaaaaaaaaaaaaaaaaaaaaaaaaaaaaaaaaaaaaaaaaaaaaaaaaaaaaaaaaaaaaaaaaaaaaaaa''
   \<and> accepted num_get_int False ''5'' 5
   \<and> read_int 0 (start (entries [''aaaaaaaaaaaaaaaaaaaaaaaaaaaaaaaaaaaaaaaaaaaaaaaaaaaaaaaaaaaaaaaaaaaaaaaaaaaaaaaaa'', ''5'']))
       = Some (5, \<lparr>cin = \<lparr>buf = [newline], failbit = False, eofbit = False,
                           boolalpha = False\<rparr>,
                   trace = retry_events int_msg @ retry_events int_msg @ [Extracted True]\<rparr>)
   \<and> prompts int_msg \<lparr>cin = \<lparr>buf = [newline], failbit = False, eofbit = False,
                              boolalpha = False\<rparr>,
                      trace = retry_events int_msg @ retry_events int_msg @ [Extracted True]\<rparr>
       = 2"
proof -
  have c1: "rejected num_get_int False ''aaaaaaaaaaaaaaaaaaaaaaaaaaaaaaaaaaaaaaaaaaaaaaaaaaaaaaaaaaaaaaaaaaaaaaaaaaaaaaaaa''"
    by (simp add: entry_simps)
  have c2: "accepted num_get_int False ''5'' 5"
    by (simp add: entry_simps)
  have c3: "read_int 0 (start (entries [''aaaaaaaaaaaaaaaaaaaaaaaaaaaaaaaaaaaaaaaaaaaaaaaaaaaaaaaaaaaaaaaaaaaaaaaaaaaaaaaaa'', ''5'']))
       = Some (5, \<lparr>cin = \<lparr>buf = [newline], failbit = False, eofbit = False,
                           boolalpha = False\<rparr>,
                   trace = retry_events int_msg @ retry_events int_msg @ [Extracted True]\<rparr>)"
    by (simp add: stream_simps int_simps retry_events_def)
  have c4: "prompts int_msg \<lparr>cin = \<lparr>buf = [newline], failbit = False, eofbit = False,
                              boolalpha = False\<rparr>,
                      trace = retry_events int_msg @ retry_events int_msg @ [Extracted True]\<rparr>
       = 2"
    by (simp add: prompts_def retry_events_def)
  show ?thesis
    using c1 c2 c3 c4 by - (intro conjI; assumption)
qed

text \<open>
  C3, as amended. Let every entry be typed on a line of its own, and let the entries
  before the first accepted one be rejected and at most 80 characters long each. Then
  the reader writes its message once for each of them and returns the value of the
  accepted entry, leaving what the conversion did not consume; and on the rejected
  entries alone it does not return. This holds for a reader with any conversion that is
  local to the entry, and \<^verbatim>\<open>read_int\<close>, \<^verbatim>\<open>read_float\<close> and \<^verbatim>\<open>read_element\<close> are such
  readers. On \<^verbatim>\<open>abc\<close>, \<^verbatim>\<open>5\<close> \<^verbatim>\<open>read_int\<close> returns 5 after one message.
\<close>

theorem one_prompt_per_short_entry:
  assumes "entry_local get"
    and "\<forall>t\<in>set ts. rejected get alpha t \<and> length t \<le> 80"
    and "accepted get alpha g v"
  shows "(\<exists>w'. read_loop alpha get msg u (start (entries (ts @ [g]) @ nxt)) = Some (v, w')
            \<and> prompts msg w' = length ts
            \<and> trace w' = concat (replicate (length ts) (retry_events msg)) @ [Extracted True]
            \<and> buf (cin w') = rest (get alpha (dropWhile isspace g)) @ newline # nxt)
         \<and> read_loop alpha get msg u (start (entries ts)) = None
         \<and> read_int = read_loop False num_get_int int_msg
         \<and> read_float = read_loop False num_get_float float_msg
         \<and> read_element E = read_loop True (element_get E) (element_msg E)
         \<and> entry_local num_get_int \<and> entry_local num_get_float \<and> entry_local num_get_bool"
proof -
  let ?w = "\<lparr>cin = \<lparr>buf = rest (get alpha (dropWhile isspace g)) @ newline # nxt,
                         failbit = False, eofbit = False, boolalpha = alpha\<rparr>,
                 trace = concat (replicate (length ts) (retry_events msg))
                           @ [Extracted True]\<rparr>"
  have r: "read_loop alpha get msg u (start (entries (ts @ [g]) @ nxt)) = Some (v, ?w)"
    using assms by (rule read_loop_entries)
  have p: "prompts msg ?w = length ts"
    by (simp add: prompts_def prompts_retry_events)
  have n: "read_loop alpha get msg u (start (entries ts)) = None"
    using assms(1,2) by (rule read_loop_entries_None)
  from r p have e: "\<exists>w'. read_loop alpha get msg u (start (entries (ts @ [g]) @ nxt)) = Some (v, w')
            \<and> prompts msg w' = length ts
            \<and> trace w' = concat (replicate (length ts) (retry_events msg)) @ [Extracted True]
            \<and> buf (cin w') = rest (get alpha (dropWhile isspace g)) @ newline # nxt"
    by (intro exI [of _ ?w]) simp
  have f1: "read_int = read_loop False num_get_int int_msg"
    by (rule ext) (rule read_int_eq)
  have f2: "read_float = read_loop False num_get_float float_msg"
    by (rule ext) (rule read_float_eq)
  have f3: "read_element E = read_loop True (element_get E) (element_msg E)"
    by (rule ext) (rule read_element_eq)
  show ?thesis
    using e n f1 f2 f3 num_get_int_local num_get_float_local num_get_bool_local
    by - (intro conjI; assumption)
qed

theorem one_prompt_per_short_entry_witness:
  "entry_local num_get_int
   \<and> rejected num_get_int False ''abc'' \<and> length ''abc'' \<le> 80
   \<and> accepted num_get_int False ''5'' 5
   \<and> read_int 0 (start (entries [''abc'', ''5'']))
       = Some (5, \<lparr>cin = \<lparr>buf = [newline], failbit = False, eofbit = False,
                           boolalpha = False\<rparr>,
                   trace = retry_events int_msg @ [Extracted True]\<rparr>)
   \<and> prompts int_msg \<lparr>cin = \<lparr>buf = [newline], failbit = False, eofbit = False,
                              boolalpha = False\<rparr>,
                      trace = retry_events int_msg @ [Extracted True]\<rparr> = 1
   \<and> read_int 0 (start (entries [''abc''])) = None"
proof -
  have h1: "\<forall>t\<in>set [''abc'']. rejected num_get_int False t \<and> length t \<le> 80"
    by (simp add: entry_simps)
  have h2: "accepted num_get_int False ''5'' 5"
    by (simp add: entry_simps)
  from one_prompt_per_short_entry [OF num_get_int_local h1 h2, of int_msg 0 "[]"]
  obtain w' where r: "read_loop False num_get_int int_msg 0
        (start (entries ([''abc''] @ [''5'']) @ [])) = Some (5, w')"
    and p: "prompts int_msg w' = length [''abc'']"
    and n: "read_loop False num_get_int int_msg 0 (start (entries [''abc''])) = None"
    by blast
  have e: "read_int 0 (start (entries [''abc'', ''5'']))
       = Some (5, \<lparr>cin = \<lparr>buf = [newline], failbit = False, eofbit = False,
                           boolalpha = False\<rparr>,
                   trace = retry_events int_msg @ [Extracted True]\<rparr>)"
    by (simp add: stream_simps int_simps retry_events_def)
  from r e have "w' = \<lparr>cin = \<lparr>buf = [newline], failbit = False, eofbit = False,
                           boolalpha = False\<rparr>,
                   trace = retry_events int_msg @ [Extracted True]\<rparr>"
    by (simp add: read_int_def)
  with p h1 h2 e n num_get_int_local show ?thesis by (simp add: read_int_def)
qed

text \<open>
  C4. Whenever the loop condition of a range-checking function is evaluated, the
  value it compares is the one the type-checking reader has just returned: the last
  thing done to \<^verbatim>\<open>cin\<close> is an extraction whose conversion succeeded, the stream is
  good, and the value is what that conversion stored. The states \<open>examines\<close> speaks of are
  those of the run: from each of them the run goes on as the loop does, and the state the
  run returns is one of them.
\<close>

theorem range_comparison_follows_type_check:
  "(examines 6 37 int_range_msg (read_int u) w (i, wi) \<longrightarrow>
      good (cin wi) \<and> last (trace wi) = Extracted True
      \<and> (\<exists>a b. ok (num_get_int a b) \<and> stored (num_get_int a b) = i))
   \<and> (examines (ELEMENT_LOW E) (ELEMENT_HIGH E) (element_range_msg E) (read_element E ue) w (e, we)
        \<longrightarrow> good (cin we) \<and> last (trace we) = Extracted True
            \<and> (\<exists>a b. ok (element_get E a b) \<and> stored (element_get E a b) = e))
   \<and> (examines lo hi m (read_loop alpha get msg ug) w (v, wg) \<longrightarrow>
        good (cin wg) \<and> last (trace wg) = Extracted True
        \<and> (\<exists>a b. ok (get a b) \<and> stored (get a b) = v))
   \<and> (examines lo hi m rd w vw \<longrightarrow> read_in_range lo hi m rd w = range_retry lo hi m rd vw)
   \<and> (read_in_range lo hi m rd w = Some r \<longrightarrow> examines lo hi m rd w r)"
proof -
  have c1: "examines 6 37 int_range_msg (read_int u) w (i, wi) \<longrightarrow>
      good (cin wi) \<and> last (trace wi) = Extracted True
      \<and> (\<exists>a b. ok (num_get_int a b) \<and> stored (num_get_int a b) = i)"
    using examines_read_loop [of 6 37 int_range_msg False num_get_int int_msg u w "(i, wi)"]
    by (simp add: read_int_eq)
  have c2: "examines (ELEMENT_LOW E) (ELEMENT_HIGH E) (element_range_msg E) (read_element E ue) w (e, we)
        \<longrightarrow> good (cin we) \<and> last (trace we) = Extracted True
            \<and> (\<exists>a b. ok (element_get E a b) \<and> stored (element_get E a b) = e)"
    using examines_read_loop [of "ELEMENT_LOW E" "ELEMENT_HIGH E" "element_range_msg E" True
        "element_get E" "element_msg E" ue w "(e, we)"]
    by (simp add: read_element_eq)
  have c3: "examines lo hi m (read_loop alpha get msg ug) w (v, wg) \<longrightarrow>
        good (cin wg) \<and> last (trace wg) = Extracted True
        \<and> (\<exists>a b. ok (get a b) \<and> stored (get a b) = v)"
    using examines_read_loop [of lo hi m alpha get msg ug w "(v, wg)"] by simp
  have c4: "examines lo hi m rd w vw \<longrightarrow> read_in_range lo hi m rd w = range_retry lo hi m rd vw"
    by (simp add: examines_run)
  have c5: "read_in_range lo hi m rd w = Some r \<longrightarrow> examines lo hi m rd w r"
    by (simp add: examines_result)
  show ?thesis
    using c1 c2 c3 c4 c5 by - (intro conjI; assumption)
qed

theorem range_comparison_follows_type_check_witness:
  "examines 6 37 int_range_msg (read_int 0) (start (entries [''3'', ''50'']))
     (50, \<lparr>cin = \<lparr>buf = [newline], failbit = False, eofbit = False, boolalpha = False\<rparr>,
           trace = [Extracted True] @ int_range_msg @ [Extracted True]\<rparr>)
   \<and> good (cin \<lparr>cin = \<lparr>buf = [newline], failbit = False, eofbit = False, boolalpha = False\<rparr>,
           trace = [Extracted True] @ int_range_msg @ [Extracted True]\<rparr>)
   \<and> last (trace \<lparr>cin = \<lparr>buf = [newline], failbit = False, eofbit = False, boolalpha = False\<rparr>,
           trace = [Extracted True] @ int_range_msg @ [Extracted True]\<rparr>) = Extracted True
   \<and> read_in_range 6 37 int_range_msg (read_int 0) (start (entries [''3'', ''50'']))
       = range_retry 6 37 int_range_msg (read_int 0)
           (50, \<lparr>cin = \<lparr>buf = [newline], failbit = False, eofbit = False, boolalpha = False\<rparr>,
                 trace = [Extracted True] @ int_range_msg @ [Extracted True]\<rparr>)"
proof -
  let ?w0 = "start (entries [''3'', ''50''])"
  let ?w3 = "\<lparr>cin = \<lparr>buf = newline # ''50'' @ [newline], failbit = False, eofbit = False,
                     boolalpha = False\<rparr>, trace = [Extracted True]\<rparr>"
  let ?w50 = "\<lparr>cin = \<lparr>buf = [newline], failbit = False, eofbit = False, boolalpha = False\<rparr>,
           trace = [Extracted True] @ int_range_msg @ [Extracted True]\<rparr>"
  have f: "read_int 0 ?w0 = Some (3, ?w3)"
    by (simp add: stream_simps int_simps)
  have s: "read_int 0 (cout int_range_msg (snd (3::int, ?w3))) = Some (50, ?w50)"
    by (simp add: stream_simps int_simps)
  have e1: "examines 6 37 int_range_msg (read_int 0) ?w0 (3, ?w3)"
    using f by (rule examines.first)
  have e2: "examines 6 37 int_range_msg (read_int 0) ?w0 (50, ?w50)"
    by (rule examines.again [OF e1 _ s]) simp
  note t = range_comparison_follows_type_check
    [where u = 0 and w = ?w0 and i = 50 and wi = ?w50 and lo = 6 and hi = 37
       and m = int_range_msg and rd = "read_int 0" and vw = "(50, ?w50)"]
  from t e2 show ?thesis by blast
qed

text \<open>
  C5. A reader has one way back to its caller, the \<^verbatim>\<open>return\<close> after the loop, and it
  gets there with the stream good and with the value that a successful conversion has
  stored; for \<^verbatim>\<open>read_int\<close> that value is an \<^verbatim>\<open>int\<close>. What the range-checking
  statements end with lies within the bounds as well. A failed extraction and a value out
  of range do not reach the caller: the reader, and the range loop, go on with the message
  and a further attempt.
\<close>

theorem readers_return_only_validated_values:
  "(read_int u w = Some (i, wi) \<longrightarrow>
      good (cin wi) \<and> INT_MIN \<le> i \<and> i \<le> INT_MAX
      \<and> (\<exists>a b. ok (num_get_int a b) \<and> stored (num_get_int a b) = i))
   \<and> (read_loop alpha get msg ug w = Some (v, wg) \<longrightarrow>
        good (cin wg) \<and> (\<exists>a b. ok (get a b) \<and> stored (get a b) = v))
   \<and> (read_int_in_range u w = Some (j, wj) \<longrightarrow>
        good (cin wj) \<and> 6 \<le> j \<and> j \<le> 37
        \<and> (\<exists>a b. ok (num_get_int a b) \<and> stored (num_get_int a b) = j))
   \<and> (read_in_range lo hi m (read_loop alpha get msg ug) w = Some (x, wx) \<longrightarrow>
        good (cin wx) \<and> lo \<le> x \<and> x \<le> hi
        \<and> (\<exists>a b. ok (get a b) \<and> stored (get a b) = x))
   \<and> (\<not> good (cin (snd (extraction alpha get ug w))) \<longrightarrow>
        read_loop alpha get msg ug w
          = read_loop alpha get msg (fst (extraction alpha get ug w))
              (cout [Cout msg]
                 (cin_ignore 80 newline (cin_clear (snd (extraction alpha get ug w))))))
   \<and> (y < lo \<or> hi < y \<longrightarrow>
        range_retry lo hi m rd (y, wy)
          = (case rd (cout m wy) of None \<Rightarrow> None
             | Some vw' \<Rightarrow> range_retry lo hi m rd vw'))"
proof -
  have c1: "read_int u w = Some (i, wi) \<longrightarrow>
      good (cin wi) \<and> INT_MIN \<le> i \<and> i \<le> INT_MAX
      \<and> (\<exists>a b. ok (num_get_int a b) \<and> stored (num_get_int a b) = i)"
  proof
    assume "read_int u w = Some (i, wi)"
    then have "read_loop False num_get_int int_msg u w = Some (i, wi)"
      by (simp add: read_int_def)
    from read_loop_result [OF this] obtain a b where "good (cin wi)"
      and ab: "ok (num_get_int a b)" "stored (num_get_int a b) = i"
      by auto
    with num_get_int_range [OF ab(1)] show "good (cin wi) \<and> INT_MIN \<le> i \<and> i \<le> INT_MAX
      \<and> (\<exists>a b. ok (num_get_int a b) \<and> stored (num_get_int a b) = i)"
      by auto
  qed
  have c2: "read_loop alpha get msg ug w = Some (v, wg) \<longrightarrow>
        good (cin wg) \<and> (\<exists>a b. ok (get a b) \<and> stored (get a b) = v)"
    using read_loop_result [of alpha get msg ug w "(v, wg)"] by simp
  have c4: "read_in_range lo hi m (read_loop alpha get msg ug) w = Some (x, wx) \<longrightarrow>
        good (cin wx) \<and> lo \<le> x \<and> x \<le> hi
        \<and> (\<exists>a b. ok (get a b) \<and> stored (get a b) = x)"
  proof
    assume a: "read_in_range lo hi m (read_loop alpha get msg ug) w = Some (x, wx)"
    have q: "good (cin (snd r)) \<and> (\<exists>a b. ok (get a b) \<and> stored (get a b) = fst r)"
      if "read_loop alpha get msg ug s = Some r" for s r
      using read_loop_result [OF that] by blast
    from read_in_range_invariant [OF a, of "\<lambda>r. good (cin (snd r))
        \<and> (\<exists>a b. ok (get a b) \<and> stored (get a b) = fst r)", OF q]
    show "good (cin wx) \<and> lo \<le> x \<and> x \<le> hi
        \<and> (\<exists>a b. ok (get a b) \<and> stored (get a b) = x)"
      by simp
  qed
  have c3: "read_int_in_range u w = Some (j, wj) \<longrightarrow>
        good (cin wj) \<and> 6 \<le> j \<and> j \<le> 37
        \<and> (\<exists>a b. ok (num_get_int a b) \<and> stored (num_get_int a b) = j)"
  proof
    assume a: "read_int_in_range u w = Some (j, wj)"
    then have a': "read_in_range 6 37 int_range_msg (read_int u) w = Some (j, wj)"
      by (simp add: read_int_in_range_def)
    have q: "good (cin (snd r))
        \<and> (\<exists>a b. ok (num_get_int a b) \<and> stored (num_get_int a b) = fst r)"
      if "read_int u s = Some r" for s r
      using read_loop_result [of False num_get_int int_msg u s r] that
      by (simp add: read_int_def)
    from read_in_range_invariant [OF a', of "\<lambda>r. good (cin (snd r))
        \<and> (\<exists>a b. ok (num_get_int a b) \<and> stored (num_get_int a b) = fst r)", OF q]
    show "good (cin wj) \<and> 6 \<le> j \<and> j \<le> 37
        \<and> (\<exists>a b. ok (num_get_int a b) \<and> stored (num_get_int a b) = j)"
      by simp
  qed
  have c5: "\<not> good (cin (snd (extraction alpha get ug w))) \<longrightarrow>
        read_loop alpha get msg ug w
          = read_loop alpha get msg (fst (extraction alpha get ug w))
              (cout [Cout msg]
                 (cin_ignore 80 newline (cin_clear (snd (extraction alpha get ug w)))))"
    by (subst read_loop_unfold) simp
  have c6: "y < lo \<or> hi < y \<longrightarrow>
        range_retry lo hi m rd (y, wy)
          = (case rd (cout m wy) of None \<Rightarrow> None
             | Some vw' \<Rightarrow> range_retry lo hi m rd vw')"
    using range_retry_out [of y lo hi m rd wy] by blast
  show ?thesis
    using c1 c2 c3 c4 c5 c6 by - (intro conjI; assumption)
qed

theorem readers_return_only_validated_values_witness:
  "read_int 0 (start (entries [''pizza'', ''50'', ''7'']))
     = Some (50, \<lparr>cin = \<lparr>buf = newline # ''7'' @ [newline], failbit = False, eofbit = False,
                          boolalpha = False\<rparr>,
                  trace = retry_events int_msg @ [Extracted True]\<rparr>)
   \<and> good (cin \<lparr>cin = \<lparr>buf = newline # ''7'' @ [newline], failbit = False, eofbit = False,
                          boolalpha = False\<rparr>,
                  trace = retry_events int_msg @ [Extracted True]\<rparr>)
   \<and> INT_MIN \<le> 50 \<and> 50 \<le> INT_MAX
   \<and> read_int_in_range 0 (start (entries [''pizza'', ''50'', ''7'']))
     = Some (7, \<lparr>cin = \<lparr>buf = [newline], failbit = False, eofbit = False, boolalpha = False\<rparr>,
                 trace = retry_events int_msg @ [Extracted True] @ int_range_msg
                           @ [Extracted True]\<rparr>)
   \<and> good (cin \<lparr>cin = \<lparr>buf = [newline], failbit = False, eofbit = False, boolalpha = False\<rparr>,
                 trace = retry_events int_msg @ [Extracted True] @ int_range_msg
                           @ [Extracted True]\<rparr>)"
proof -
  let ?w0 = "start (entries [''pizza'', ''50'', ''7''])"
  let ?w50 = "\<lparr>cin = \<lparr>buf = newline # ''7'' @ [newline], failbit = False, eofbit = False,
                          boolalpha = False\<rparr>,
                  trace = retry_events int_msg @ [Extracted True]\<rparr>"
  let ?w7 = "\<lparr>cin = \<lparr>buf = [newline], failbit = False, eofbit = False, boolalpha = False\<rparr>,
                 trace = retry_events int_msg @ [Extracted True] @ int_range_msg
                           @ [Extracted True]\<rparr>"
  have h1: "read_int 0 ?w0 = Some (50, ?w50)"
    by (simp add: stream_simps int_simps retry_events_def)
  have h2: "read_int_in_range 0 ?w0 = Some (7, ?w7)"
    by (simp add: stream_simps int_simps range_simps retry_events_def)
  note t = readers_return_only_validated_values
    [where u = 0 and w = ?w0 and i = 50 and wi = ?w50 and j = 7 and wj = ?w7]
  from t h1 h2 show ?thesis by blast
qed

text \<open>
  C6. After an extraction that failed the loop runs its body, and the body does four
  things in this order: it resets the error flags, it drops characters from the pending
  input, it writes the message, it extracts again. What is dropped is a front part \<open>d\<close>
  of the pending input of at most 80 characters with no line feed before its last
  character, and the dropping stops because 80 characters are gone, or a line feed has
  just been dropped, or the input has ended. The conversion of the new attempt runs on
  what is left. Each message holds the name of the expected type.
\<close>

theorem parse_failure_recovery:
  "(failbit (cin w) \<longrightarrow>
      retry alpha get msg (u, w) = retry alpha get msg (retry_body alpha get msg (u, w)))
   \<and> trace (snd (retry_body alpha get msg (u, w)))
       = trace w @ [Cleared, Ignored 80 newline, Cout msg,
           Extracted (\<not> failbit (cin (snd (retry_body alpha get msg (u, w)))))]
   \<and> cin (cin_clear w) = (cin w)\<lparr>failbit := False, eofbit := False\<rparr>
   \<and> buf (cin (cin_ignore 80 newline (cin_clear w))) = fst (discard 80 newline (buf (cin w)))
   \<and> (\<exists>d. buf (cin w) = d @ fst (discard 80 newline (buf (cin w))) \<and> length d \<le> 80
          \<and> newline \<notin> set (butlast d)
          \<and> (length d = 80 \<or> (d \<noteq> [] \<and> last d = newline)
              \<or> (fst (discard 80 newline (buf (cin w))) = []
                  \<and> snd (discard 80 newline (buf (cin w))))))
   \<and> retry_body alpha get msg (u, w)
       = extraction alpha get u
           (cout [Cout msg] (cin_ignore 80 newline (cin_clear w)))
   \<and> int_msg = ''Invalid data type, should be a '' @ ''whole number'' @ '', try again: ''
   \<and> float_msg = ''Invalid data type, should be a '' @ ''fractional number'' @ '', try again: ''
   \<and> element_msg E = ''Invalid data type, should be an element ('' @ ELEMENT_NAME E
                        @ ''), try again: ''"
proof -
  have c1: "failbit (cin w) \<longrightarrow>
      retry alpha get msg (u, w) = retry alpha get msg (retry_body alpha get msg (u, w))"
    by (subst retry.simps) (simp add: good_def)
  have c2: "trace (snd (retry_body alpha get msg (u, w)))
       = trace w @ [Cleared, Ignored 80 newline, Cout msg,
           Extracted (\<not> failbit (cin (snd (retry_body alpha get msg (u, w)))))]"
    using trace_retry_body [of alpha get msg "(u, w)"] by simp
  have c3: "cin (cin_clear w) = (cin w)\<lparr>failbit := False, eofbit := False\<rparr>"
    by (simp add: cin_clear_def clear_def)
  have c4: "buf (cin (cin_ignore 80 newline (cin_clear w)))
      = fst (discard 80 newline (buf (cin w)))"
    by (simp add: cin_ignore_cleared)
  have c5: "\<exists>d. buf (cin w) = d @ fst (discard 80 newline (buf (cin w))) \<and> length d \<le> 80
          \<and> newline \<notin> set (butlast d)
          \<and> (length d = 80 \<or> (d \<noteq> [] \<and> last d = newline)
              \<or> (fst (discard 80 newline (buf (cin w))) = []
                  \<and> snd (discard 80 newline (buf (cin w)))))"
    by (rule discard_spec)
  have c6: "retry_body alpha get msg (u, w)
       = extraction alpha get u
           (cout [Cout msg] (cin_ignore 80 newline (cin_clear w)))"
    by (simp add: retry_body_def)
  have c7: "int_msg = ''Invalid data type, should be a '' @ ''whole number'' @ '', try again: ''"
    by (simp add: int_msg_def)
  have c8: "float_msg
      = ''Invalid data type, should be a '' @ ''fractional number'' @ '', try again: ''"
    by (simp add: float_msg_def)
  have c9: "element_msg E = ''Invalid data type, should be an element ('' @ ELEMENT_NAME E
                        @ ''), try again: ''"
    by (simp add: element_msg_def)
  show ?thesis
    using c1 c2 c3 c4 c5 c6 c7 c8 c9 by - (intro conjI; assumption)
qed

theorem parse_failure_recovery_witness:
  "failbit (cin \<lparr>cin = \<lparr>buf = ''pizza'' @ newline # ''7'' @ [newline], failbit = True,
                        eofbit = False, boolalpha = False\<rparr>,
                trace = [Extracted False]\<rparr>)
   \<and> retry False num_get_int int_msg
        (0, \<lparr>cin = \<lparr>buf = ''pizza'' @ newline # ''7'' @ [newline], failbit = True,
                     eofbit = False, boolalpha = False\<rparr>,
             trace = [Extracted False]\<rparr>)
      = Some (7, \<lparr>cin = \<lparr>buf = [newline], failbit = False, eofbit = False,
                          boolalpha = False\<rparr>,
                  trace = [Extracted False, Cleared, Ignored 80 newline, Cout int_msg,
                           Extracted True]\<rparr>)"
proof -
  let ?w = "\<lparr>cin = \<lparr>buf = ''pizza'' @ newline # ''7'' @ [newline], failbit = True,
                        eofbit = False, boolalpha = False\<rparr>,
                trace = [Extracted False]\<rparr>"
  have h: "failbit (cin ?w)" by simp
  have e: "retry False num_get_int int_msg (retry_body False num_get_int int_msg (0, ?w))
      = Some (7, \<lparr>cin = \<lparr>buf = [newline], failbit = False, eofbit = False,
                          boolalpha = False\<rparr>,
                  trace = [Extracted False, Cleared, Ignored 80 newline, Cout int_msg,
                           Extracted True]\<rparr>)"
    by (simp add: stream_simps int_simps)
  from parse_failure_recovery [where w = ?w and alpha = False and get = num_get_int
      and msg = int_msg and u = 0, THEN conjunct1, THEN mp, OF h] e h
  show ?thesis by simp
qed

text \<open>
  C7. The documentation of \<^verbatim>\<open>read_int\<close> promises that, when the user enters non-valid values
  followed by a valid one, all the non-valid values are discarded and the first valid value
  entered is returned. The code does not keep this promise on the entry of 80 letters
  and the digit 7, followed by the entry 5. The first entry is rejected, and
  \<^verbatim>\<open>cin.ignore(80, '\n')\<close> drops its 80 letters only; the next extraction reads the 7 that
  is left of the rejected entry. \<^verbatim>\<open>read_int\<close> returns 7 after one message, the entry 5, the
  first valid one, is still pending, and no part of the rejected entry should have been
  returned.
\<close>

theorem read_int_returns_rest_of_rejected_entry:
  "rejected num_get_int False ''aaaaaaaaaaaaaaaaaaaaaaaaaaaaaaaaaaaaaaaaaaaaaaaaaaaaaaaaaaaaaaaaaaaaaaaaaaaaaaaa7''
   \<and> accepted num_get_int False ''5'' 5
   \<and> read_int 0 (start (entries [''aaaaaaaaaaaaaaaaaaaaaaaaaaaaaaaaaaaaaaaaaaaaaaaaaaaaaaaaaaaaaaaaaaaaaaaaaaaaaaaa7'', ''5'']))
       = Some (7, \<lparr>cin = \<lparr>buf = newline # ''5'' @ [newline], failbit = False, eofbit = False,
                           boolalpha = False\<rparr>,
                   trace = retry_events int_msg @ [Extracted True]\<rparr>)"
proof -
  have c1: "rejected num_get_int False ''aaaaaaaaaaaaaaaaaaaaaaaaaaaaaaaaaaaaaaaaaaaaaaaaaaaaaaaaaaaaaaaaaaaaaaaaaaaaaaaa7''"
    by (simp add: entry_simps)
  have c2: "accepted num_get_int False ''5'' 5"
    by (simp add: entry_simps)
  have c3: "read_int 0 (start (entries [''aaaaaaaaaaaaaaaaaaaaaaaaaaaaaaaaaaaaaaaaaaaaaaaaaaaaaaaaaaaaaaaaaaaaaaaaaaaaaaaa7'', ''5'']))
       = Some (7, \<lparr>cin = \<lparr>buf = newline # ''5'' @ [newline], failbit = False, eofbit = False,
                           boolalpha = False\<rparr>,
                   trace = retry_events int_msg @ [Extracted True]\<rparr>)"
    by (simp add: stream_simps int_simps retry_events_def)
  show ?thesis
    using c1 c2 c3 by - (intro conjI; assumption)
qed

text \<open>
  The promise is kept as long as no rejected entry is longer than the 80 characters that
  one pass through the loop discards. Let every entry be typed on a line of its own, and
  let the entries before the first accepted one be rejected and at most 80 characters long
  each. Then the reader returns, with the value of the first accepted entry. On such
  rejected entries alone, after which the input ends, it never returns: after any number
  \<open>k\<close> of passes through the loop the stream is not good and exactly \<open>k\<close> messages have
  been written. A state in which the stream is not good is never a final one, the loop
  goes on from it with an extraction as its last step; and a value out of range makes the
  range loop write its message and call the reader again. All this holds for a reader
  with any conversion that is local to the entry, and \<^verbatim>\<open>read_int\<close>, \<^verbatim>\<open>read_float\<close> and
  \<^verbatim>\<open>read_element\<close> are such readers.
\<close>

lemma short_entries_first_valid_value:
  assumes "entry_local get"
    and "\<forall>t\<in>set ts. rejected get alpha t \<and> length t \<le> 80"
    and "accepted get alpha g v"
  shows "read_loop alpha get msg u (start (entries (ts @ [g]) @ nxt))
           = Some (v, \<lparr>cin = \<lparr>buf = rest (get alpha (dropWhile isspace g)) @ newline # nxt,
                               failbit = False, eofbit = False, boolalpha = alpha\<rparr>,
                       trace = concat (replicate (length ts) (retry_events msg))
                                 @ [Extracted True]\<rparr>)
         \<and> read_loop alpha get msg u (start (entries ts)) = None
         \<and> (\<forall>k. \<not> good (cin (snd ((retry_body alpha get msg ^^ k)
                       (extraction alpha get u (start (entries ts))))))
                \<and> prompts msg (snd ((retry_body alpha get msg ^^ k)
                       (extraction alpha get u (start (entries ts))))) = k)
         \<and> (\<forall>x. \<not> good (cin (snd x)) \<longrightarrow>
                retry alpha get msg x = retry alpha get msg (retry_body alpha get msg x)
                \<and> last (trace (snd (retry_body alpha get msg x)))
                    = Extracted (\<not> failbit (cin (snd (retry_body alpha get msg x)))))
         \<and> (\<forall>y s. y < lo \<or> hi < y \<longrightarrow>
                range_retry lo hi m rd (y, s)
                  = (case rd (cout m s) of None \<Rightarrow> None
                     | Some vw' \<Rightarrow> range_retry lo hi m rd vw'))
         \<and> read_int = read_loop False num_get_int int_msg
         \<and> read_float = read_loop False num_get_float float_msg
         \<and> read_element E = read_loop True (element_get E) (element_msg E)
         \<and> entry_local num_get_int \<and> entry_local num_get_float \<and> entry_local num_get_bool"
proof -
  let ?e = "extraction alpha get u (start (entries ts))"
  have c1: "read_loop alpha get msg u (start (entries (ts @ [g]) @ nxt))
           = Some (v, \<lparr>cin = \<lparr>buf = rest (get alpha (dropWhile isspace g)) @ newline # nxt,
                               failbit = False, eofbit = False, boolalpha = alpha\<rparr>,
                       trace = concat (replicate (length ts) (retry_events msg))
                                 @ [Extracted True]\<rparr>)"
    using assms by (rule read_loop_entries)
  have c2: "read_loop alpha get msg u (start (entries ts)) = None"
    using assms(1,2) by (rule read_loop_entries_None)
  then have n: "retry alpha get msg ?e = None"
    by (simp add: read_loop_def)
  have p0: "prompts msg (snd ?e) = 0"
    by (simp add: prompts_def trace_extraction start_simps)
  have c3: "\<forall>k. \<not> good (cin (snd ((retry_body alpha get msg ^^ k) ?e)))
                \<and> prompts msg (snd ((retry_body alpha get msg ^^ k) ?e)) = k"
    using retry_None_iterates [OF n]
      prompts_iterates [where msg = msg and alpha = alpha and get = get and uw = ?e] p0
    by simp
  have c4: "\<forall>x. \<not> good (cin (snd x)) \<longrightarrow>
                retry alpha get msg x = retry alpha get msg (retry_body alpha get msg x)
                \<and> last (trace (snd (retry_body alpha get msg x)))
                    = Extracted (\<not> failbit (cin (snd (retry_body alpha get msg x))))"
  proof (intro allI impI conjI)
    fix x :: "'a \<times> world"
    assume "\<not> good (cin (snd x))"
    then show "retry alpha get msg x = retry alpha get msg (retry_body alpha get msg x)"
      by (subst retry.simps) simp
    show "last (trace (snd (retry_body alpha get msg x)))
        = Extracted (\<not> failbit (cin (snd (retry_body alpha get msg x))))"
      by (subst trace_retry_body) simp
  qed
  have c5: "\<forall>y s. y < lo \<or> hi < y \<longrightarrow>
                range_retry lo hi m rd (y, s)
                  = (case rd (cout m s) of None \<Rightarrow> None
                     | Some vw' \<Rightarrow> range_retry lo hi m rd vw')"
    using range_retry_out by blast
  have f1: "read_int = read_loop False num_get_int int_msg"
    by (rule ext) (rule read_int_eq)
  have f2: "read_float = read_loop False num_get_float float_msg"
    by (rule ext) (rule read_float_eq)
  have f3: "read_element E = read_loop True (element_get E) (element_msg E)"
    by (rule ext) (rule read_element_eq)
  show ?thesis
    using c1 c2 c3 c4 c5 f1 f2 f3 num_get_int_local num_get_float_local num_get_bool_local
    by - (intro conjI; assumption)
qed

lemma short_entries_first_valid_value_example:
  "entry_local num_get_int
   \<and> rejected num_get_int False ''pizza'' \<and> length ''pizza'' \<le> 80
   \<and> accepted num_get_int False ''7'' 7
   \<and> read_int 0 (start (entries [''pizza'', ''7'']))
       = Some (7, \<lparr>cin = \<lparr>buf = [newline], failbit = False, eofbit = False,
                           boolalpha = False\<rparr>,
                   trace = retry_events int_msg @ [Extracted True]\<rparr>)
   \<and> read_int 0 (start (entries [''pizza''])) = None"
proof -
  have h1: "\<forall>t\<in>set [''pizza'']. rejected num_get_int False t \<and> length t \<le> 80"
    by (simp add: entry_simps)
  have h2: "accepted num_get_int False ''7'' 7"
    by (simp add: entry_simps)
  have r: "rest (num_get_int False (dropWhile isspace ''7'')) = []"
    by (simp add: entry_simps)
  note t = short_entries_first_valid_value [OF num_get_int_local h1 h2, of int_msg 0 "[]"]
  from t [THEN conjunct1] r
  have c1: "read_int 0 (start (entries [''pizza'', ''7'']))
       = Some (7, \<lparr>cin = \<lparr>buf = [newline], failbit = False, eofbit = False,
                           boolalpha = False\<rparr>,
                   trace = retry_events int_msg @ [Extracted True]\<rparr>)"
    by (simp add: read_int_def)
  from t [THEN conjunct2, THEN conjunct1]
  have c2: "read_int 0 (start (entries [''pizza''])) = None"
    by (simp add: read_int_def)
  from h1 h2 c1 c2 num_get_int_local show ?thesis by simp
qed

text \<open>
  C8. Both bounds belong to the range: with \<open>lo \<le> hi\<close> the loop returns a value equal to
  \<open>lo\<close> or to \<open>hi\<close> at once. With the bounds 5.5 and 42.8 of the program, the entries
  \<^verbatim>\<open>5.5\<close> and \<^verbatim>\<open>42.8\<close> are returned (the \<^verbatim>\<open>float\<close> nearest to 42.8 lies below the
  \<^verbatim>\<open>double\<close> nearest to 42.8) and \<^verbatim>\<open>42.81\<close> is answered with the range message. With
  the bounds 6 and 37, the entries 3 and 50 are answered with the range message and 6 is
  returned and displayed; 37 is returned as well.
\<close>

theorem bounds_are_inclusive:
  "(lo \<le> hi \<longrightarrow> range_retry lo hi m rd (lo, w) = Some (lo, w)
                 \<and> range_retry lo hi m rd (hi, w) = Some (hi, w))
   \<and> read_float_in_range u (start (entries [''5.5'']))
       = Some (11 / 2, \<lparr>cin = \<lparr>buf = [newline], failbit = False, eofbit = False,
                               boolalpha = False\<rparr>,
                        trace = [Extracted True]\<rparr>)
   \<and> read_float_in_range u (start (entries [''42.8'']))
       = Some (11219763 / 262144,
               \<lparr>cin = \<lparr>buf = [newline], failbit = False, eofbit = False, boolalpha = False\<rparr>,
                trace = [Extracted True]\<rparr>)
   \<and> read_float_in_range u (start (entries [''42.81'', ''42.8'']))
       = Some (11219763 / 262144,
               \<lparr>cin = \<lparr>buf = [newline], failbit = False, eofbit = False, boolalpha = False\<rparr>,
                trace = [Extracted True] @ float_range_msg @ [Extracted True]\<rparr>)
   \<and> read_int_in_range i (start (entries [''3'', ''50'', ''6'']))
       = Some (6, \<lparr>cin = \<lparr>buf = [newline], failbit = False, eofbit = False,
                          boolalpha = False\<rparr>,
                   trace = [Extracted True] @ int_range_msg @ [Extracted True]
                             @ int_range_msg @ [Extracted True]\<rparr>)
   \<and> demo_int_type_and_range_checking i (start (entries [''3'', ''50'', ''6'']))
       = Some \<lparr>cin = \<lparr>buf = [newline], failbit = False, eofbit = False, boolalpha = False\<rparr>,
               trace = [Cout ''Enter a whole number between 6 and 37: '', Extracted True]
                         @ int_range_msg @ [Extracted True] @ int_range_msg
                         @ [Extracted True, Cout ''You entered '', CoutInt 6, Endl, Endl]\<rparr>
   \<and> read_int_in_range i (start (entries [''37'']))
       = Some (37, \<lparr>cin = \<lparr>buf = [newline], failbit = False, eofbit = False,
                           boolalpha = False\<rparr>,
                    trace = [Extracted True]\<rparr>)"
proof -
  have c1: "lo \<le> hi \<longrightarrow> range_retry lo hi m rd (lo, w) = Some (lo, w)
                 \<and> range_retry lo hi m rd (hi, w) = Some (hi, w)"
    by (simp add: range_retry_in)
  have c2: "read_float_in_range u (start (entries [''5.5'']))
       = Some (11 / 2, \<lparr>cin = \<lparr>buf = [newline], failbit = False, eofbit = False,
                               boolalpha = False\<rparr>,
                        trace = [Extracted True]\<rparr>)"
    by (simp add: stream_simps float_simps float_range_simps)
  have c3: "read_float_in_range u (start (entries [''42.8'']))
       = Some (11219763 / 262144,
               \<lparr>cin = \<lparr>buf = [newline], failbit = False, eofbit = False, boolalpha = False\<rparr>,
                trace = [Extracted True]\<rparr>)"
    by (simp add: stream_simps float_simps float_range_simps)
  have c4: "read_float_in_range u (start (entries [''42.81'', ''42.8'']))
       = Some (11219763 / 262144,
               \<lparr>cin = \<lparr>buf = [newline], failbit = False, eofbit = False, boolalpha = False\<rparr>,
                trace = [Extracted True] @ float_range_msg @ [Extracted True]\<rparr>)"
    by (simp add: stream_simps float_simps float_range_simps)
  have c5: "read_int_in_range i (start (entries [''3'', ''50'', ''6'']))
       = Some (6, \<lparr>cin = \<lparr>buf = [newline], failbit = False, eofbit = False,
                          boolalpha = False\<rparr>,
                   trace = [Extracted True] @ int_range_msg @ [Extracted True]
                             @ int_range_msg @ [Extracted True]\<rparr>)"
    by (simp add: stream_simps int_simps range_simps)
  have c6: "demo_int_type_and_range_checking i (start (entries [''3'', ''50'', ''6'']))
       = Some \<lparr>cin = \<lparr>buf = [newline], failbit = False, eofbit = False, boolalpha = False\<rparr>,
               trace = [Cout ''Enter a whole number between 6 and 37: '', Extracted True]
                         @ int_range_msg @ [Extracted True] @ int_range_msg
                         @ [Extracted True, Cout ''You entered '', CoutInt 6, Endl, Endl]\<rparr>"
    by (simp add: stream_simps int_simps range_simps demo_int_type_and_range_checking_def)
  have c7: "read_int_in_range i (start (entries [''37'']))
       = Some (37, \<lparr>cin = \<lparr>buf = [newline], failbit = False, eofbit = False,
                           boolalpha = False\<rparr>,
                    trace = [Extracted True]\<rparr>)"
    by (simp add: stream_simps int_simps range_simps)
  show ?thesis
    using c1 c2 c3 c4 c5 c6 c7 by - (intro conjI; assumption)
qed

theorem bounds_are_inclusive_witness:
  "(6::int) \<le> 37
   \<and> range_retry 6 37 int_range_msg (read_int 0) (6, start []) = Some (6, start [])
   \<and> range_retry 6 37 int_range_msg (read_int 0) (37, start []) = Some (37, start [])"
proof -
  have h: "(6::int) \<le> 37" by simp
  from bounds_are_inclusive [where lo = "6::int" and hi = 37 and m = int_range_msg
      and rd = "read_int 0" and w = "start []", THEN conjunct1, THEN mp, OF h] h
  show ?thesis by simp
qed

text \<open>
  C9. Each of the three readers returns with the stream good, and the last thing it did
  to the stream is an extraction whose conversion succeeded. In every pass of the loop
  \<^verbatim>\<open>cin.clear()\<close> comes first, so that the stream is good when \<^verbatim>\<open>cin.ignore\<close> runs and
  the characters are in fact dropped; the message and the next extraction follow.
\<close>

theorem readers_return_with_good_stream:
  "(read_int u w = Some (i, wi) \<longrightarrow> good (cin wi) \<and> last (trace wi) = Extracted True)
   \<and> (read_float uf w = Some (f, wr) \<longrightarrow> good (cin wr) \<and> last (trace wr) = Extracted True)
   \<and> (read_element E ue w = Some (e, we) \<longrightarrow> good (cin we) \<and> last (trace we) = Extracted True)
   \<and> (\<not> good (cin x) \<longrightarrow>
        retry alpha get msg (y, x) = retry alpha get msg (retry_body alpha get msg (y, x)))
   \<and> trace (snd (retry_body alpha get msg (y, x)))
       = trace x @ [Cleared, Ignored 80 newline, Cout msg,
           Extracted (\<not> failbit (cin (snd (retry_body alpha get msg (y, x)))))]
   \<and> good (cin (cin_clear x))
   \<and> cin (cin_ignore 80 newline (cin_clear x))
       = (cin x)\<lparr>buf := fst (discard 80 newline (buf (cin x))), failbit := False,
                 eofbit := snd (discard 80 newline (buf (cin x)))\<rparr>"
proof -
  have c1: "read_int u w = Some (i, wi) \<longrightarrow> good (cin wi) \<and> last (trace wi) = Extracted True"
    using read_loop_result [of False num_get_int int_msg u w "(i, wi)"]
    by (simp add: read_int_def)
  have c2: "read_float uf w = Some (f, wr) \<longrightarrow> good (cin wr) \<and> last (trace wr) = Extracted True"
    using read_loop_result [of False num_get_float float_msg uf w "(f, wr)"]
    by (simp add: read_float_def)
  have c3: "read_element E ue w = Some (e, we) \<longrightarrow> good (cin we) \<and> last (trace we) = Extracted True"
    using read_loop_result [of True "element_get E" "element_msg E" ue w "(e, we)"]
    by (simp add: read_element_def)
  have c4: "\<not> good (cin x) \<longrightarrow>
        retry alpha get msg (y, x) = retry alpha get msg (retry_body alpha get msg (y, x))"
    by (subst retry.simps) simp
  have c5: "trace (snd (retry_body alpha get msg (y, x)))
       = trace x @ [Cleared, Ignored 80 newline, Cout msg,
           Extracted (\<not> failbit (cin (snd (retry_body alpha get msg (y, x)))))]"
    using trace_retry_body [of alpha get msg "(y, x)"] by simp
  have c6: "good (cin (cin_clear x))"
    by (simp add: cin_clear_def good_clear)
  have c7: "cin (cin_ignore 80 newline (cin_clear x))
       = (cin x)\<lparr>buf := fst (discard 80 newline (buf (cin x))), failbit := False,
                 eofbit := snd (discard 80 newline (buf (cin x)))\<rparr>"
    by (rule cin_ignore_cleared)
  show ?thesis
    using c1 c2 c3 c4 c5 c6 c7 by - (intro conjI; assumption)
qed

theorem readers_return_with_good_stream_witness:
  "read_int 0 (start (entries [''abc'', ''5'']))
     = Some (5, \<lparr>cin = \<lparr>buf = [newline], failbit = False, eofbit = False, boolalpha = False\<rparr>,
                 trace = retry_events int_msg @ [Extracted True]\<rparr>)
   \<and> read_float 0 (start (entries [''x'', ''5.5'']))
     = Some (11 / 2, \<lparr>cin = \<lparr>buf = [newline], failbit = False, eofbit = False,
                             boolalpha = False\<rparr>,
                      trace = retry_events float_msg @ [Extracted True]\<rparr>)
   \<and> read_element int_element 0 (start (entries [''?'', ''20'']))
     = Some (20, \<lparr>cin = \<lparr>buf = [newline], failbit = False, eofbit = False, boolalpha = True\<rparr>,
                  trace = retry_events (element_msg int_element) @ [Extracted True]\<rparr>)
   \<and> good \<lparr>buf = [newline], failbit = False, eofbit = False, boolalpha = False\<rparr>
   \<and> good \<lparr>buf = [newline], failbit = False, eofbit = False, boolalpha = True\<rparr>
   \<and> last (retry_events int_msg @ [Extracted True]) = Extracted True"
proof -
  let ?wi = "\<lparr>cin = \<lparr>buf = [newline], failbit = False, eofbit = False, boolalpha = False\<rparr>,
                 trace = retry_events int_msg @ [Extracted True]\<rparr>"
  let ?wr = "\<lparr>cin = \<lparr>buf = [newline], failbit = False, eofbit = False, boolalpha = False\<rparr>,
                      trace = retry_events float_msg @ [Extracted True]\<rparr>"
  let ?we = "\<lparr>cin = \<lparr>buf = [newline], failbit = False, eofbit = False, boolalpha = True\<rparr>,
                  trace = retry_events (element_msg int_element) @ [Extracted True]\<rparr>"
  have h1: "read_int 0 (start (entries [''abc'', ''5''])) = Some (5, ?wi)"
    by (simp add: stream_simps int_simps retry_events_def)
  have h2: "read_float 0 (start (entries [''x'', ''5.5''])) = Some (11 / 2, ?wr)"
    by (simp add: stream_simps float_simps retry_events_def)
  have h3: "read_element int_element 0 (start (entries [''?'', ''20''])) = Some (20, ?we)"
    by (simp add: stream_simps int_simps element_simps retry_events_def)
  note t = readers_return_with_good_stream
    [where u = 0 and w = "start (entries [''abc'', ''5''])" and i = 5 and wi = ?wi]
  note t2 = readers_return_with_good_stream
    [where uf = 0 and w = "start (entries [''x'', ''5.5''])" and f = "11 / 2" and wr = ?wr]
  note t3 = readers_return_with_good_stream
    [where E = int_element and ue = 0 and w = "start (entries [''?'', ''20''])" and e = 20
       and we = ?we]
  have "good (cin ?wi) \<and> last (trace ?wi) = Extracted True"
    by (rule t [THEN conjunct1, THEN mp, OF h1])
  moreover have "good (cin ?wr) \<and> last (trace ?wr) = Extracted True"
    by (rule t2 [THEN conjunct2, THEN conjunct1, THEN mp, OF h2])
  moreover have "good (cin ?we) \<and> last (trace ?we) = Extracted True"
    by (rule t3 [THEN conjunct2, THEN conjunct2, THEN conjunct1, THEN mp, OF h3])
  ultimately show ?thesis using h1 h2 h3 by simp
qed

text \<open>
  C10. When the first extraction succeeds the reader returns at once: nothing has been
  cleared, dropped or written, and the pending input is what the conversion left. For
  \<^verbatim>\<open>read_int\<close> the characters consumed are the white space before the field and the
  field itself, an optional sign and the digits that give the value; what follows the
  digits stays. When the conversion succeeds and the stream is not good all the same,
  the input has ended with the field and nothing is pending that could be dropped. On
  \<^verbatim>\<open>5abc\<close> the reader returns 5 and leaves \<^verbatim>\<open>abc\<close>, on which the next call fails once
  before it reads on.
\<close>

theorem successful_parse_discards_nothing:
  "(good (cin (snd (extraction alpha get u w))) \<longrightarrow>
      read_loop alpha get msg u w = Some (extraction alpha get u w)
      \<and> trace (snd (extraction alpha get u w)) = trace w @ [Extracted True]
      \<and> buf (cin (snd (extraction alpha get u w)))
          = rest (get (alpha \<or> boolalpha (cin w)) (dropWhile isspace (buf (cin w)))))
   \<and> (good (cin (snd (extraction False num_get_int i w))) \<longrightarrow>
        read_int i w = Some (extraction False num_get_int i w)
        \<and> (\<exists>ws tok. buf (cin w) = ws @ tok @ buf (cin (snd (extraction False num_get_int i w)))
              \<and> (\<forall>c\<in>set ws. isspace c)
              \<and> snd (get_sign tok) \<noteq> [] \<and> (\<forall>c\<in>set (snd (get_sign tok)). isdigit c)
              \<and> fst (extraction False num_get_int i w)
                  = signed (fst (get_sign tok)) (decimal (snd (get_sign tok)))))
   \<and> (\<not> failbit (cin (snd (extraction False num_get_int i w)))
        \<and> \<not> good (cin (snd (extraction False num_get_int i w)))
        \<longrightarrow> buf (cin (snd (extraction False num_get_int i w))) = [])
   \<and> read_int i (start (''5abc'' @ newline # nxt))
       = Some (5, \<lparr>cin = \<lparr>buf = ''abc'' @ newline # nxt, failbit = False, eofbit = False,
                           boolalpha = False\<rparr>,
                   trace = [Extracted True]\<rparr>)
   \<and> read_int j \<lparr>cin = \<lparr>buf = ''abc'' @ newline # ''7'' @ newline # nxt, failbit = False,
                        eofbit = False, boolalpha = False\<rparr>,
                  trace = [Extracted True]\<rparr>
       = Some (7, \<lparr>cin = \<lparr>buf = newline # nxt, failbit = False, eofbit = False,
                           boolalpha = False\<rparr>,
                   trace = [Extracted True] @ retry_events int_msg @ [Extracted True]\<rparr>)"
proof -
  have c1: "good (cin (snd (extraction alpha get u w))) \<longrightarrow>
      read_loop alpha get msg u w = Some (extraction alpha get u w)
      \<and> trace (snd (extraction alpha get u w)) = trace w @ [Extracted True]
      \<and> buf (cin (snd (extraction alpha get u w)))
          = rest (get (alpha \<or> boolalpha (cin w)) (dropWhile isspace (buf (cin w))))"
    using immediate_return [of alpha get u w msg] by blast
  have c2: "good (cin (snd (extraction False num_get_int i w))) \<longrightarrow>
        read_int i w = Some (extraction False num_get_int i w)
        \<and> (\<exists>ws tok. buf (cin w) = ws @ tok @ buf (cin (snd (extraction False num_get_int i w)))
              \<and> (\<forall>c\<in>set ws. isspace c)
              \<and> snd (get_sign tok) \<noteq> [] \<and> (\<forall>c\<in>set (snd (get_sign tok)). isdigit c)
              \<and> fst (extraction False num_get_int i w)
                  = signed (fst (get_sign tok)) (decimal (snd (get_sign tok))))"
  proof
    assume g: "good (cin (snd (extraction False num_get_int i w)))"
    let ?b = "dropWhile isspace (buf (cin w))"
    let ?p = "num_get_int (boolalpha (cin w)) ?b"
    from g have g': "good (snd (formatted_input num_get_int i (cin w)))"
      by (simp add: extraction_def cin_extract_def)
    note f = formatted_input_good [OF g']
    from immediate_return [OF g, of int_msg]
    have r: "read_int i w = Some (extraction False num_get_int i w)"
      and b: "buf (cin (snd (extraction False num_get_int i w))) = rest ?p"
      by (simp_all add: read_int_def)
    have v: "fst (extraction False num_get_int i w) = stored ?p"
      using f(4) by (simp add: extraction_def cin_extract_def)
    from num_get_int_ok [OF f(3)] obtain tok where tok: "?b = tok @ rest ?p"
      "snd (get_sign tok) \<noteq> []" "\<forall>c\<in>set (snd (get_sign tok)). isdigit c"
      "stored ?p = signed (fst (get_sign tok)) (decimal (snd (get_sign tok)))"
      by blast
    have "buf (cin w) = takeWhile isspace (buf (cin w)) @ ?b" by simp
    with tok(1) b have "buf (cin w) = takeWhile isspace (buf (cin w)) @ tok
        @ buf (cin (snd (extraction False num_get_int i w)))"
      by simp
    moreover have "\<forall>c\<in>set (takeWhile isspace (buf (cin w))). isspace c"
      by (auto dest: set_takeWhileD)
    ultimately have "\<exists>ws tok. buf (cin w) = ws @ tok @ buf (cin (snd (extraction False num_get_int i w)))
              \<and> (\<forall>c\<in>set ws. isspace c)
              \<and> snd (get_sign tok) \<noteq> [] \<and> (\<forall>c\<in>set (snd (get_sign tok)). isdigit c)
              \<and> fst (extraction False num_get_int i w)
                  = signed (fst (get_sign tok)) (decimal (snd (get_sign tok)))"
      using tok(2,3,4) v by metis
    with r show "read_int i w = Some (extraction False num_get_int i w)
        \<and> (\<exists>ws tok. buf (cin w) = ws @ tok @ buf (cin (snd (extraction False num_get_int i w)))
              \<and> (\<forall>c\<in>set ws. isspace c)
              \<and> snd (get_sign tok) \<noteq> [] \<and> (\<forall>c\<in>set (snd (get_sign tok)). isdigit c)
              \<and> fst (extraction False num_get_int i w)
                  = signed (fst (get_sign tok)) (decimal (snd (get_sign tok))))"
      by simp
  qed
  have c2': "\<not> failbit (cin (snd (extraction False num_get_int i w)))
        \<and> \<not> good (cin (snd (extraction False num_get_int i w)))
        \<longrightarrow> buf (cin (snd (extraction False num_get_int i w))) = []"
    using successful_extraction_at_end [of i w] by blast
  have c3: "read_int i (start (''5abc'' @ newline # nxt))
       = Some (5, \<lparr>cin = \<lparr>buf = ''abc'' @ newline # nxt, failbit = False, eofbit = False,
                           boolalpha = False\<rparr>,
                   trace = [Extracted True]\<rparr>)"
    by (simp add: stream_simps int_simps)
  have c4: "read_int j \<lparr>cin = \<lparr>buf = ''abc'' @ newline # ''7'' @ newline # nxt, failbit = False,
                        eofbit = False, boolalpha = False\<rparr>,
                  trace = [Extracted True]\<rparr>
       = Some (7, \<lparr>cin = \<lparr>buf = newline # nxt, failbit = False, eofbit = False,
                           boolalpha = False\<rparr>,
                   trace = [Extracted True] @ retry_events int_msg @ [Extracted True]\<rparr>)"
    by (simp add: stream_simps int_simps retry_events_def)
  show ?thesis
    using c1 c2 c2' c3 c4 by - (intro conjI; assumption)
qed

theorem successful_parse_discards_nothing_witness:
  "good (cin (snd (extraction False num_get_int 0 (start (entries [''5abc''])))))
   \<and> read_loop False num_get_int int_msg 0 (start (entries [''5abc'']))
       = Some (5, \<lparr>cin = \<lparr>buf = ''abc'' @ [newline], failbit = False, eofbit = False,
                           boolalpha = False\<rparr>,
                   trace = [Extracted True]\<rparr>)"
proof -
  let ?w = "start (entries [''5abc''])"
  have e: "extraction False num_get_int 0 ?w
      = (5, \<lparr>cin = \<lparr>buf = ''abc'' @ [newline], failbit = False, eofbit = False,
                           boolalpha = False\<rparr>,
                   trace = [Extracted True]\<rparr>)"
    by (simp add: stream_simps int_simps)
  have h: "good (cin (snd (extraction False num_get_int 0 ?w)))"
    by (simp add: e good_def)
  from successful_parse_discards_nothing [where alpha = False and get = num_get_int
      and u = 0 and w = ?w and msg = int_msg, THEN conjunct1, THEN mp, OF h] h e
  show ?thesis by simp
qed

end
